theory Spec2Isabelle
  imports Complex_Main "HOL-Library.Sublist" "HOL-Library.AList"
begin

section \<open>Python values and built-ins used by the RAG core\<close>

text \<open>
  The indexer and the query engine work on dynamically typed dictionaries. Values that
  reach the filter evaluator are JSON values (the API's filter object and the documents'
  open metadata mapping) plus \<open>datetime\<close> objects (a document's timestamp). A
  \<open>datetime\<close> is modelled by its position on the time line (an integer), a
  dictionary as an association list in insertion order, and a string as the list of its
  code points, each below 256 (text with code points beyond Latin-1 is outside the
  model). A Python float is modelled by the real number it denotes. Where the query
  engine computes a score with floats (the keyword score, and the blended score of the
  hybrid fusion, which the sort then compares), each binary64 operation rounds its exact
  result, and that rounding is a parameter \<open>fl\<close> of the model (there a literal such as
  \<open>0.8\<close> denotes \<open>fl 0.8\<close>): what is proved holds for the machine's rounding as for exact
  arithmetic (\<open>fl\<close> the identity). The halving \<open>chunk_size * 0.5\<close> of the chunker is exact
  in binary64; the vectors of the index are taken over the reals.
\<close>

datatype pyval =
    PNone
  | PBool bool
  | PInt int
  | PFloat real
  | PStr string
  | PDatetime int
  | PList "pyval list"
  | PDict "(string \<times> pyval) list"

datatype error =
    TypeError
  | KeyError
  | EmbeddingError
  | IndexError
  | LLMError
  | ValidationError

text \<open>\<open>bool\<close>, \<open>int\<close> and \<open>float\<close> compare by numeric value.\<close>

fun num_of :: "pyval \<Rightarrow> real option" where
  "num_of (PBool b) = Some (if b then 1 else 0)"
| "num_of (PInt i) = Some (real_of_int i)"
| "num_of (PFloat r) = Some r"
| "num_of _ = None"

text \<open>Python \<open>==\<close>. Dictionaries are equal when they hold the same keys with equal values.\<close>

fun py_eq :: "pyval \<Rightarrow> pyval \<Rightarrow> bool"
  and py_eq_list :: "pyval list \<Rightarrow> pyval list \<Rightarrow> bool"
  and py_eq_dict :: "(string \<times> pyval) list \<Rightarrow> (string \<times> pyval) list \<Rightarrow> bool" where
  "py_eq PNone b = (b = PNone)"
| "py_eq (PBool x) b = (num_of b = Some (if x then 1 else 0))"
| "py_eq (PInt x) b = (num_of b = Some (real_of_int x))"
| "py_eq (PFloat x) b = (num_of b = Some x)"
| "py_eq (PStr s) b = (b = PStr s)"
| "py_eq (PDatetime t) b = (b = PDatetime t)"
| "py_eq (PList xs) b = (case b of PList ys \<Rightarrow> py_eq_list xs ys | _ \<Rightarrow> False)"
| "py_eq (PDict kvs) b =
     (case b of PDict kws \<Rightarrow> length kvs = length kws \<and> py_eq_dict kvs kws | _ \<Rightarrow> False)"
| "py_eq_list [] ys = (ys = [])"
| "py_eq_list (x # xs) ys = (case ys of [] \<Rightarrow> False | y # ys' \<Rightarrow> py_eq x y \<and> py_eq_list xs ys')"
| "py_eq_dict [] kws = True"
| "py_eq_dict ((k, v) # kvs) kws =
     ((case map_of kws k of None \<Rightarrow> False | Some w \<Rightarrow> py_eq v w) \<and> py_eq_dict kvs kws)"

text \<open>
  Python \<open><\<close>: defined between two numbers, two strings (by code point), two datetimes
  and two lists (at the first pair of unequal elements); every other pair raises
  \<open>TypeError\<close>.
\<close>

fun str_lt :: "string \<Rightarrow> string \<Rightarrow> bool" where
  "str_lt [] [] = False"
| "str_lt [] (y # ys) = True"
| "str_lt (x # xs) [] = False"
| "str_lt (x # xs) (y # ys) =
     (if x = y then str_lt xs ys else (of_char x :: nat) < of_char y)"

fun py_lt :: "pyval \<Rightarrow> pyval \<Rightarrow> error + bool"
  and py_lt_list :: "pyval list \<Rightarrow> pyval list \<Rightarrow> error + bool" where
  "py_lt (PList xs) b = (case b of PList ys \<Rightarrow> py_lt_list xs ys | _ \<Rightarrow> Inl TypeError)"
| "py_lt (PStr s) b = (case b of PStr t \<Rightarrow> Inr (str_lt s t) | _ \<Rightarrow> Inl TypeError)"
| "py_lt (PDatetime s) b = (case b of PDatetime t \<Rightarrow> Inr (s < t) | _ \<Rightarrow> Inl TypeError)"
| "py_lt (PDict kvs) b = Inl TypeError"
| "py_lt PNone b = Inl TypeError"
| "py_lt (PBool x) b =
     (case num_of b of Some y \<Rightarrow> Inr ((if x then 1 else 0) < y) | None \<Rightarrow> Inl TypeError)"
| "py_lt (PInt x) b =
     (case num_of b of Some y \<Rightarrow> Inr (real_of_int x < y) | None \<Rightarrow> Inl TypeError)"
| "py_lt (PFloat x) b =
     (case num_of b of Some y \<Rightarrow> Inr (x < y) | None \<Rightarrow> Inl TypeError)"
| "py_lt_list [] ys = Inr (ys \<noteq> [])"
| "py_lt_list (x # xs) ys =
     (case ys of [] \<Rightarrow> Inr False
      | y # ys' \<Rightarrow> if py_eq x y then py_lt_list xs ys' else py_lt x y)"

text \<open>Python \<open>a > b\<close> on these types is \<open>b < a\<close>.\<close>

definition py_gt :: "pyval \<Rightarrow> pyval \<Rightarrow> error + bool" where
  "py_gt a b = py_lt b a"

text \<open>Truthiness, as tested by \<open>if x:\<close>.\<close>

fun truthy :: "pyval \<Rightarrow> bool" where
  "truthy PNone = False"
| "truthy (PBool b) = b"
| "truthy (PInt i) = (i \<noteq> 0)"
| "truthy (PFloat r) = (r \<noteq> 0)"
| "truthy (PStr s) = (s \<noteq> [])"
| "truthy (PDatetime t) = True"
| "truthy (PList xs) = (xs \<noteq> [])"
| "truthy (PDict kvs) = (kvs \<noteq> [])"

text \<open>
  Python \<open>x in c\<close>: element equality on a list, key lookup on a dictionary (an unhashable
  \<open>x\<close> raises), substring test on a string (a non-string \<open>x\<close> raises); every other
  container raises \<open>TypeError\<close>.
\<close>

fun py_in :: "pyval \<Rightarrow> pyval \<Rightarrow> error + bool" where
  "py_in x (PList ys) = Inr (list_ex (py_eq x) ys)"
| "py_in x (PDict kvs) =
     (case x of
        PList _ \<Rightarrow> Inl TypeError
      | PDict _ \<Rightarrow> Inl TypeError
      | PStr k \<Rightarrow> Inr (map_of kvs k \<noteq> None)
      | _ \<Rightarrow> Inr False)"
| "py_in x (PStr s) = (case x of PStr t \<Rightarrow> Inr (sublist t s) | _ \<Rightarrow> Inl TypeError)"
| "py_in x _ = Inl TypeError"

text \<open>Python \<open>c[k]\<close> with a string key \<open>k\<close>.\<close>

fun py_getitem :: "pyval \<Rightarrow> string \<Rightarrow> error + pyval" where
  "py_getitem (PDict kvs) k = (case map_of kvs k of None \<Rightarrow> Inl KeyError | Some v \<Rightarrow> Inr v)"
| "py_getitem _ k = Inl TypeError"

text \<open>\<open>d.get(k)\<close> and \<open>d.get(k, default)\<close> on a dictionary.\<close>

definition dict_get :: "(string \<times> pyval) list \<Rightarrow> string \<Rightarrow> pyval \<Rightarrow> pyval" where
  "dict_get d k dflt = (case map_of d k of None \<Rightarrow> dflt | Some v \<Rightarrow> v)"

definition of_opt_str :: "string option \<Rightarrow> pyval" where
  "of_opt_str s = (case s of None \<Rightarrow> PNone | Some t \<Rightarrow> PStr t)"

subsection \<open>Strings and slices\<close>

text \<open>\<open>xs[a:b]\<close> with Python's treatment of negative and out-of-range bounds.\<close>

definition slice_bound :: "int \<Rightarrow> int \<Rightarrow> int" where
  "slice_bound i n = (if i < 0 then max (i + n) 0 else min i n)"

definition py_slice :: "'a list \<Rightarrow> int \<Rightarrow> int \<Rightarrow> 'a list" where
  "py_slice xs a b =
     (let n = int (length xs); a' = slice_bound a n; b' = slice_bound b n
      in take (nat (b' - a')) (drop (nat a') xs))"

text \<open>\<open>xs[:k]\<close>.\<close>

definition py_take :: "'a list \<Rightarrow> int \<Rightarrow> 'a list" where
  "py_take xs k = py_slice xs 0 k"

text \<open>
  \<open>str.isspace\<close> on a code point below 256: the controls 9 to 13 and 28 to 31, the space,
  NEL (133) and the no-break space (160). \<open>strip\<close> and \<open>split\<close> use it.
\<close>

definition is_space :: "char \<Rightarrow> bool" where
  "is_space c =
     (let n = (of_char c :: nat)
      in (9 \<le> n \<and> n \<le> 13) \<or> (28 \<le> n \<and> n \<le> 32) \<or> n = 133 \<or> n = 160)"

definition strip :: "string \<Rightarrow> string" where
  "strip s = rev (dropWhile is_space (rev (dropWhile is_space s)))"

text \<open>\<open>s.rfind(c)\<close> for a one-character \<open>c\<close>: the last index of \<open>c\<close>, or \<open>-1\<close>.\<close>

fun rfind_from :: "string \<Rightarrow> char \<Rightarrow> int \<Rightarrow> int \<Rightarrow> int" where
  "rfind_from [] c i found = found"
| "rfind_from (x # xs) c i found = rfind_from xs c (i + 1) (if x = c then i else found)"

definition rfind :: "string \<Rightarrow> char \<Rightarrow> int" where
  "rfind s c = rfind_from s c 0 (- 1)"

text \<open>
  \<open>str.lower\<close> on a code point below 256: the letters \<open>A\<close> to \<open>Z\<close> and the Latin-1 capitals
  192 to 222 (without the multiplication sign 215) move up by 32.
\<close>

definition lower_char :: "char \<Rightarrow> char" where
  "lower_char c =
     (let n = (of_char c :: nat)
      in if (65 \<le> n \<and> n \<le> 90) \<or> (192 \<le> n \<and> n \<le> 222 \<and> n \<noteq> 215)
         then char_of (n + 32) else c)"

definition lower :: "string \<Rightarrow> string" where
  "lower s = map lower_char s"

text \<open>\<open>s.split()\<close>: the maximal runs of non-space characters.\<close>

fun split_from :: "string \<Rightarrow> string \<Rightarrow> string list" where
  "split_from [] w = (if w = [] then [] else [w])"
| "split_from (c # cs) w =
     (if is_space c then (if w = [] then split_from cs [] else w # split_from cs [])
      else split_from cs (w @ [c]))"

definition split :: "string \<Rightarrow> string list" where
  "split s = split_from s []"

text \<open>\<open>sep.join(xs)\<close>.\<close>

fun join :: "string \<Rightarrow> string list \<Rightarrow> string" where
  "join sep [] = []"
| "join sep [x] = x"
| "join sep (x # y # ys) = x @ sep @ join sep (y # ys)"

section \<open>Data model\<close>

text \<open>
  A Chunk Store entry and a search result are dictionaries with the same keys, except
  that the entry has \<open>chunk_index\<close> and the result has \<open>score\<close>.
\<close>

record chunk_fields =
  document_id :: string
  chunk_id :: string
  content :: string
  title :: string
  metadata :: "(string \<times> pyval) list"
  document_type :: "string option"
  timestamp :: pyval

record chunk_metadata = chunk_fields +
  chunk_index :: nat

record search_result = chunk_fields +
  score :: real

section \<open>Query engine: fusion of semantic and keyword results\<close>

text \<open>
  \<open>list.sort(key=lambda x: x["score"], reverse=True)\<close>: a stable sort into descending
  score order (entries of equal score keep their relative order).
\<close>

definition sort_by_score_desc :: "search_result list \<Rightarrow> search_result list" where
  "sort_by_score_desc rs = sort_key (\<lambda>r. - score r) rs"

text \<open>The first loop of \<open>_merge_results\<close>: semantic results, first occurrence of a chunk id.\<close>

fun add_semantic ::
  "search_result list \<Rightarrow> string list \<Rightarrow> search_result list \<Rightarrow> string list \<times> search_result list" where
  "add_semantic [] seen_chunks merged_results = (seen_chunks, merged_results)"
| "add_semantic (result # rest) seen_chunks merged_results =
     (if chunk_id result \<notin> set seen_chunks
      then add_semantic rest (chunk_id result # seen_chunks) (merged_results @ [result])
      else add_semantic rest seen_chunks merged_results)"

text \<open>
  \<open>result["score"] * 0.8 + 0.2\<close> in binary64: the product is rounded, then the sum.
\<close>

definition blend_score :: "(real \<Rightarrow> real) \<Rightarrow> real \<Rightarrow> real" where
  "blend_score fl x = fl (fl (x * fl 0.8) + fl 0.2)"

text \<open>The second loop: keyword results not seen so far, with the blended score.\<close>

fun add_keyword ::
  "(real \<Rightarrow> real) \<Rightarrow> search_result list \<Rightarrow> string list \<Rightarrow> search_result list \<Rightarrow>
   string list \<times> search_result list" where
  "add_keyword fl [] seen_chunks merged_results = (seen_chunks, merged_results)"
| "add_keyword fl (result # rest) seen_chunks merged_results =
     (if chunk_id result \<notin> set seen_chunks
      then add_keyword fl rest (chunk_id result # seen_chunks)
             (merged_results @ [result\<lparr>score := blend_score fl (score result)\<rparr>])
      else add_keyword fl rest seen_chunks merged_results)"

text \<open>
  \<open>_merge_results\<close>. Every result is a dictionary built by \<open>search\<close> or by
  \<open>_keyword_search\<close>, so it has the keys \<open>chunk_id\<close> and \<open>score\<close> and the body raises
  nothing; the handler that returns the concatenation is not reached.
\<close>

definition merge_results ::
  "(real \<Rightarrow> real) \<Rightarrow> search_result list \<Rightarrow> search_result list \<Rightarrow> int \<Rightarrow> search_result list" where
  "merge_results fl semantic_results keyword_results max_results =
     (let (seen1, merged1) = add_semantic semantic_results [] [];
          (seen2, merged2) = add_keyword fl keyword_results seen1 merged1
      in py_take (sort_by_score_desc merged2) max_results)"

subsection \<open>Vocabulary of the fusion's properties\<close>

text \<open>
  The results deduplicated by chunk id: of the entries with one chunk id, the first.
\<close>

fun first_per_chunk :: "search_result list \<Rightarrow> search_result list" where
  "first_per_chunk [] = []"
| "first_per_chunk (x # xs) =
     x # first_per_chunk (filter (\<lambda>y. chunk_id y \<noteq> chunk_id x) xs)"

text \<open>
  What the fusion sorts: the semantic hits deduplicated, then the keyword hits whose
  chunk id no semantic hit has, deduplicated and rescored.
\<close>

definition fused_candidates ::
  "(real \<Rightarrow> real) \<Rightarrow> search_result list \<Rightarrow> search_result list \<Rightarrow> search_result list" where
  "fused_candidates fl S K =
     first_per_chunk S @
     map (\<lambda>k. k\<lparr>score := blend_score fl (score k)\<rparr>)
       (first_per_chunk (filter (\<lambda>k. chunk_id k \<notin> chunk_id ` set S) K))"

section \<open>Chunker\<close>

text \<open>
  The largest of the three \<open>rfind\<close> results in the tentative window (\<open>-1\<close> when the
  window holds no sentence terminator).
\<close>

definition last_sentence_end :: "string \<Rightarrow> int" where
  "last_sentence_end chunk_text =
     max (max (rfind chunk_text (CHR ''.'')) (rfind chunk_text (CHR ''!'')))
         (rfind chunk_text (CHR ''?''))"

text \<open>
  The value of \<open>end\<close> after the sentence-boundary test of one iteration of the loop of
  \<open>_chunk_text\<close>, for the window that begins at \<open>start\<close>.
\<close>

definition window_end :: "string \<Rightarrow> int \<Rightarrow> int \<Rightarrow> int" where
  "window_end text chunk_size start =
     (let e = start + chunk_size
      in if e < int (length text)
         then (let lse = last_sentence_end (py_slice text start e)
               in if real_of_int lse > real_of_int chunk_size * 0.5 then start + lse + 1 else e)
         else e)"

text \<open>
  The \<open>while\<close> loop of \<open>_chunk_text\<close>. For arbitrary \<open>chunk_size\<close> and \<open>overlap\<close> the loop
  need not end (for example \<open>overlap = chunk_size\<close>), so the result is an option and
  \<open>None\<close> stands for a loop that runs forever.
\<close>

partial_function (option) chunk_loop ::
  "string \<Rightarrow> int \<Rightarrow> int \<Rightarrow> int \<Rightarrow> string list \<Rightarrow> string list option" where
  "chunk_loop text chunk_size overlap start chunks =
     (if start < int (length text)
      then (let e = window_end text chunk_size start;
                chunk = strip (py_slice text start e);
                chunks' = (if chunk \<noteq> [] then chunks @ [chunk] else chunks);
                start' = e - overlap
            in if start' \<ge> int (length text) then Some chunks'
               else chunk_loop text chunk_size overlap start' chunks')
      else Some chunks)"

definition chunk_text :: "string \<Rightarrow> int \<Rightarrow> int \<Rightarrow> string list option" where
  "chunk_text text chunk_size overlap =
     (if int (length text) \<le> chunk_size then Some [text]
      else chunk_loop text chunk_size overlap 0 [])"

subsection \<open>Vocabulary of the chunker's properties\<close>

definition is_terminator :: "char \<Rightarrow> bool" where
  "is_terminator c = (c = CHR ''.'' \<or> c = CHR ''!'' \<or> c = CHR ''?'')"

text \<open>\<open>k\<close> is the position of the last sentence terminator of the window \<open>w\<close>.\<close>

definition last_terminator :: "string \<Rightarrow> nat \<Rightarrow> bool" where
  "last_terminator w k =
     (k < length w \<and> is_terminator (w ! k) \<and> (\<forall>j \<in> {Suc k ..< length w}. \<not> is_terminator (w ! j)))"

text \<open>
  Two adjacent chunks share an overlap region of at most \<open>ov\<close> characters: some
  non-empty string of length at most \<open>ov\<close> ends the first and begins the second.
\<close>

definition shares_overlap :: "nat \<Rightarrow> string \<Rightarrow> string \<Rightarrow> bool" where
  "shares_overlap ov c d =
     (\<exists>n \<in> {1 .. ov}. n \<le> length c \<and> n \<le> length d \<and> drop (length c - n) c = take n d)"

text \<open>
  The windows of the loop of \<open>_chunk_text\<close>: the same loop, recording the pair
  \<open>(start, end)\<close> of every iteration where the code appends the stripped slice
  \<open>text[start:end]\<close> if it is not empty.
\<close>

partial_function (option) window_loop ::
  "string \<Rightarrow> int \<Rightarrow> int \<Rightarrow> int \<Rightarrow> (int \<times> int) list \<Rightarrow> (int \<times> int) list option" where
  "window_loop text chunk_size overlap start windows =
     (if start < int (length text)
      then (let e = window_end text chunk_size start;
                windows' = windows @ [(start, e)];
                start' = e - overlap
            in if start' \<ge> int (length text) then Some windows'
               else window_loop text chunk_size overlap start' windows')
      else Some windows)"

definition chunk_windows :: "string \<Rightarrow> int \<Rightarrow> int \<Rightarrow> (int \<times> int) list option" where
  "chunk_windows text chunk_size overlap = window_loop text chunk_size overlap 0 []"

text \<open>The chunk of a window: \<open>text[start:end].strip()\<close>.\<close>

definition window_chunk :: "string \<Rightarrow> int \<times> int \<Rightarrow> string" where
  "window_chunk text w = strip (py_slice text (fst w) (snd w))"

text \<open>
  The overlap region of two consecutive windows: the characters from the start of the
  second window to the end of the first, \<open>text[start':end]\<close>.
\<close>

definition overlap_region :: "string \<Rightarrow> int \<times> int \<Rightarrow> int \<times> int \<Rightarrow> string" where
  "overlap_region text w w' = py_slice text (fst w') (snd w)"

definition region_nonblank :: "string \<Rightarrow> int \<times> int \<Rightarrow> int \<times> int \<Rightarrow> bool" where
  "region_nonblank text w w' = (\<exists>x \<in> set (overlap_region text w w'). \<not> is_space x)"

section \<open>Filter evaluator\<close>

text \<open>
  One pass of the loop body of \<open>_match_filters\<close> for the filter item
  \<open>(filter_key, filter_value)\<close>: \<open>Inr False\<close> when the body executes \<open>return False\<close>,
  \<open>Inr True\<close> when it falls through to the next item, \<open>Inl e\<close> when it raises.
  A key that is not one of the seven known keys falls through.
\<close>

definition date_range_passes :: "pyval \<Rightarrow> pyval \<Rightarrow> error + bool" where
  "date_range_passes ts filter_value =
     (if truthy ts then
        (case py_in (PStr ''start'') filter_value of
           Inl e \<Rightarrow> Inl e
         | Inr has_start \<Rightarrow>
             (case (if has_start
                    then (case py_getitem filter_value ''start'' of
                            Inl e \<Rightarrow> Inl e | Inr b \<Rightarrow> py_lt ts b)
                    else Inr False) of
                Inl e \<Rightarrow> Inl e
              | Inr True \<Rightarrow> Inr False
              | Inr False \<Rightarrow>
                  (case py_in (PStr ''end'') filter_value of
                     Inl e \<Rightarrow> Inl e
                   | Inr has_end \<Rightarrow>
                       (case (if has_end
                              then (case py_getitem filter_value ''end'' of
                                      Inl e \<Rightarrow> Inl e | Inr b \<Rightarrow> py_gt ts b)
                              else Inr False) of
                          Inl e \<Rightarrow> Inl e
                        | Inr True \<Rightarrow> Inr False
                        | Inr False \<Rightarrow> Inr True))))
      else Inr True)"

definition filter_passes ::
  "('a chunk_fields_scheme) \<Rightarrow> string \<Rightarrow> pyval \<Rightarrow> error + bool" where
  "filter_passes document_metadata filter_key filter_value =
     (if filter_key = ''project_ids''
      then py_in (dict_get (metadata document_metadata) ''project_id'' PNone) filter_value
      else if filter_key = ''contractors''
      then py_in (dict_get (metadata document_metadata) ''contractor'' PNone) filter_value
      else if filter_key = ''statuses''
      then py_in (dict_get (metadata document_metadata) ''status'' PNone) filter_value
      else if filter_key = ''document_types''
      then py_in (of_opt_str (document_type document_metadata)) filter_value
      else if filter_key = ''categories''
      then py_in (dict_get (metadata document_metadata) ''category'' PNone) filter_value
      else if filter_key = ''confidence_min''
      then (case py_lt (dict_get (metadata document_metadata) ''confidence'' (PFloat 1.0))
                   filter_value of
              Inl e \<Rightarrow> Inl e | Inr below \<Rightarrow> Inr (\<not> below))
      else if filter_key = ''date_range''
      then date_range_passes (timestamp document_metadata) filter_value
      else Inr True)"

text \<open>The \<open>for\<close> loop over \<open>filters.items()\<close>, followed by \<open>return True\<close>.\<close>

fun match_loop ::
  "('a chunk_fields_scheme) \<Rightarrow> (string \<times> pyval) list \<Rightarrow> error + bool" where
  "match_loop document_metadata [] = Inr True"
| "match_loop document_metadata ((filter_key, filter_value) # rest) =
     (case filter_passes document_metadata filter_key filter_value of
        Inl e \<Rightarrow> Inl e
      | Inr False \<Rightarrow> Inr False
      | Inr True \<Rightarrow> match_loop document_metadata rest)"

text \<open>\<open>_match_filters\<close>: the loop inside \<open>try\<close>; the handler returns \<open>False\<close>.\<close>

definition match_filters ::
  "('a chunk_fields_scheme) \<Rightarrow> (string \<times> pyval) list \<Rightarrow> bool" where
  "match_filters document_metadata filters =
     (case match_loop document_metadata filters of Inl e \<Rightarrow> False | Inr b \<Rightarrow> b)"

text \<open>The field of a chunk that a membership filter key reads (\<open>None\<close> when it is absent).\<close>

definition membership_field :: "('a chunk_fields_scheme) \<Rightarrow> string \<Rightarrow> pyval" where
  "membership_field document_metadata filter_key =
     (if filter_key = ''project_ids'' then dict_get (metadata document_metadata) ''project_id'' PNone
      else if filter_key = ''contractors'' then dict_get (metadata document_metadata) ''contractor'' PNone
      else if filter_key = ''statuses'' then dict_get (metadata document_metadata) ''status'' PNone
      else if filter_key = ''document_types'' then of_opt_str (document_type document_metadata)
      else dict_get (metadata document_metadata) ''category'' PNone)"

definition membership_keys :: "string set" where
  "membership_keys = {''project_ids'', ''contractors'', ''statuses'', ''document_types'', ''categories''}"

section \<open>Indexer\<close>

text \<open>
  An embedding is a vector of reals. The embedding model is a parameter
  \<open>encode :: string \<Rightarrow> error + vector\<close>: the vector of a text, or the fault it raises. The
  batch call embeds the texts in order and fails as a whole when one text fails. (The
  model is deterministic and all its vectors have the dimension probed at start-up, so
  \<open>index.add\<close> does not reject them.)
\<close>

type_synonym vector = "real list"

fun embed_texts :: "(string \<Rightarrow> error + vector) \<Rightarrow> string list \<Rightarrow> error + vector list" where
  "embed_texts encode [] = Inr []"
| "embed_texts encode (t # ts) =
     (case encode t of
        Inl e \<Rightarrow> Inl e
      | Inr v \<Rightarrow> (case embed_texts encode ts of Inl e \<Rightarrow> Inl e | Inr vs \<Rightarrow> Inr (v # vs)))"

text \<open>
  The in-memory state: the rows of the flat index (\<open>None\<close> while \<open>self.index is None\<close>),
  and the Chunk Store \<open>document_store\<close>, a dictionary from index position to chunk
  metadata, in insertion order.
\<close>

record indexer_state =
  index :: "vector list option"
  document_store :: "(nat \<times> chunk_metadata) list"
  embedding_dimension :: nat

definition empty_state :: "nat \<Rightarrow> indexer_state" where
  "empty_state d = \<lparr>index = None, document_store = [], embedding_dimension = d\<rparr>"

text \<open>A document as \<open>add_documents\<close> receives it (\<open>doc.get("document_id")\<close> may be absent).\<close>

record document =
  doc_document_id :: "string option"
  doc_content :: string
  doc_title :: string
  doc_metadata :: "(string \<times> pyval) list"
  doc_document_type :: "string option"
  doc_timestamp :: pyval

text \<open>\<open>str(i)\<close> for a non-negative integer.\<close>

fun digits :: "nat \<Rightarrow> string" where
  "digits n = (if n < 10 then [char_of (48 + n)] else digits (n div 10) @ [char_of (48 + n mod 10)])"

declare digits.simps [simp del]

text \<open>
  The chunk metadata that the first loop of \<open>add_documents\<close> prepares for one document;
  a document with a missing or empty id or content is skipped. \<open>_chunk_text\<close> is called
  with its default \<open>chunk_size\<close> and \<open>overlap\<close>, for which it always returns
  (lemma \<open>chunk_text_default_returns\<close>).
\<close>

definition doc_chunks :: "document \<Rightarrow> chunk_metadata list" where
  "doc_chunks doc =
     (case doc_document_id doc of
        None \<Rightarrow> []
      | Some did \<Rightarrow>
          if did = [] \<or> doc_content doc = [] then []
          else (let chunks = the (chunk_text (doc_content doc) 512 50)
                in map (\<lambda>(i, chunk).
                     \<lparr>document_id = did,
                      chunk_id = (if length chunks > 1 then did @ ''_chunk_'' @ digits i else did),
                      content = chunk,
                      title = doc_title doc,
                      metadata = doc_metadata doc,
                      document_type = doc_document_type doc,
                      timestamp = doc_timestamp doc,
                      chunk_index = i\<rparr>)
                   (enumerate 0 chunks)))"

text \<open>The second loop: \<open>self.document_store[start_index + i] = metadata\<close>.\<close>

fun store_entries ::
  "(nat \<times> chunk_metadata) list \<Rightarrow> nat \<Rightarrow> chunk_metadata list \<Rightarrow> (nat \<times> chunk_metadata) list" where
  "store_entries store index_id [] = store"
| "store_entries store index_id (m # ms) =
     store_entries (AList.update index_id m store) (Suc index_id) ms"

text \<open>
  \<open>add_documents\<close>: the new state and the number of chunks embedded, or the embedding
  fault, raised before anything was changed. Saving to disk does not change the
  in-memory state and its failure is swallowed, so it is not part of the model.
\<close>

definition add_documents ::
  "(string \<Rightarrow> error + vector) \<Rightarrow> indexer_state \<Rightarrow> document list \<Rightarrow> error + (indexer_state \<times> nat)" where
  "add_documents encode s documents =
     (if documents = [] then Inr (s, 0)
      else (let document_metadata = concat (map doc_chunks documents);
                texts_to_embed = map content document_metadata
            in if texts_to_embed = [] then Inr (s, 0)
               else (case embed_texts encode texts_to_embed of
                       Inl e \<Rightarrow> Inl e
                     | Inr embeddings \<Rightarrow>
                         (let rows = (case index s of None \<Rightarrow> [] | Some r \<Rightarrow> r);
                              start_index = length rows
                          in Inr (s\<lparr>index := Some (rows @ embeddings),
                                    document_store :=
                                      store_entries (document_store s) start_index document_metadata\<rparr>,
                                  length texts_to_embed)))))"

text \<open>The deletion loop of \<open>delete_documents\<close> over \<open>indices_to_remove\<close>.\<close>

fun remove_entries ::
  "(nat \<times> chunk_metadata) list \<Rightarrow> nat \<Rightarrow> nat list \<Rightarrow> (nat \<times> chunk_metadata) list \<times> nat" where
  "remove_entries store deleted_count [] = (store, deleted_count)"
| "remove_entries store deleted_count (index_id # rest) =
     (if index_id \<in> fst ` set store
      then remove_entries (AList.delete index_id store) (deleted_count + 1) rest
      else remove_entries store deleted_count rest)"

definition delete_documents :: "indexer_state \<Rightarrow> string list \<Rightarrow> indexer_state \<times> nat" where
  "delete_documents s document_ids =
     (if index s = None then (s, 0)
      else (let indices_to_remove =
                  map fst (filter (\<lambda>(index_id, m). document_id m \<in> set document_ids)
                             (document_store s))
            in if indices_to_remove = [] then (s, 0)
               else (let (store', deleted_count) = remove_entries (document_store s) 0 indices_to_remove
                     in (s\<lparr>document_store := store'\<rparr>, deleted_count))))"

text \<open>
  \<open>get_index_stats\<close>, without \<open>index_size_bytes\<close> and \<open>model\<close> (the size of the files on disk
  and a configuration string).
\<close>

record index_stats =
  total_vectors :: nat
  active_documents :: nat
  total_chunks :: nat
  stats_embedding_dimension :: nat

definition live_document_ids :: "indexer_state \<Rightarrow> string set" where
  "live_document_ids s = set (map (\<lambda>(index_id, m). document_id m) (document_store s))"

definition get_index_stats :: "indexer_state \<Rightarrow> index_stats" where
  "get_index_stats s =
     \<lparr>total_vectors = (case index s of None \<Rightarrow> 0 | Some rows \<Rightarrow> length rows),
      active_documents = length (remdups (map (\<lambda>(index_id, m). document_id m) (document_store s))),
      total_chunks = length (document_store s),
      stats_embedding_dimension = embedding_dimension s\<rparr>"

subsection \<open>Search\<close>

text \<open>\<open>faiss.normalize_L2\<close> on one row: scale by the inverse norm unless the norm is zero.\<close>

definition normalize_L2 :: "vector \<Rightarrow> vector" where
  "normalize_L2 v =
     (let nr = sum_list (map (\<lambda>x. x * x) v)
      in if nr > 0 then map (\<lambda>x. x * (1 / sqrt nr)) v else v)"

definition inner_product :: "vector \<Rightarrow> vector \<Rightarrow> real" where
  "inner_product a b = sum_list (map2 (*) a b)"

text \<open>
  The library's flat inner-product index: the \<open>k\<close> rows of largest inner product with
  the query, as (score, row number) pairs in descending score order; it rejects
  \<open>k \<le> 0\<close>. The functions below take the index search as a parameter \<open>knn\<close>; this is the
  instance used in examples.
\<close>

definition index_flat_ip_search :: "vector list \<Rightarrow> vector \<Rightarrow> int \<Rightarrow> error + (real \<times> int) list" where
  "index_flat_ip_search rows q k =
     (if k \<le> 0 then Inl IndexError
      else Inr (take (nat k)
             (sort_key (\<lambda>(sc, i). - sc)
                (map (\<lambda>(i, row). (inner_product q row, int i)) (enumerate 0 rows)))))"

definition to_result :: "chunk_metadata \<Rightarrow> real \<Rightarrow> search_result" where
  "to_result m sc =
     \<lparr>document_id = document_id m, chunk_id = chunk_id m, content = content m, title = title m,
      metadata = metadata m, document_type = document_type m, timestamp = timestamp m,
      score = sc\<rparr>"

text \<open>\<open>filters and not self._match_filters(document_metadata, filters)\<close>.\<close>

definition filtered_out :: "(string \<times> pyval) list option \<Rightarrow> ('a chunk_fields_scheme) \<Rightarrow> bool" where
  "filtered_out filters m =
     (case filters of None \<Rightarrow> False | Some fs \<Rightarrow> fs \<noteq> [] \<and> \<not> match_filters m fs)"

text \<open>The result loop of \<open>search\<close> over the (score, row number) pairs.\<close>

fun collect_results ::
  "(nat \<times> chunk_metadata) list \<Rightarrow> (string \<times> pyval) list option \<Rightarrow> int \<Rightarrow>
   (real \<times> int) list \<Rightarrow> search_result list \<Rightarrow> search_result list" where
  "collect_results store filters k [] results = results"
| "collect_results store filters k ((sc, idx) # rest) results =
     (if idx = - 1 then collect_results store filters k rest results
      else (case (if idx < 0 then None else map_of store (nat idx)) of
              None \<Rightarrow> collect_results store filters k rest results
            | Some m \<Rightarrow>
                if filtered_out filters m then collect_results store filters k rest results
                else (let results' = results @ [to_result m sc]
                      in if int (length results') \<ge> k then results'
                         else collect_results store filters k rest results')))"

text \<open>
  \<open>search\<close>: the results, or the fault raised by the embedding of the query or by the
  index. The query vector that is compared with the stored rows is
  \<open>normalize_L2\<close> of the query's embedding.
\<close>

definition search ::
  "(string \<Rightarrow> error + vector) \<Rightarrow> (vector list \<Rightarrow> vector \<Rightarrow> int \<Rightarrow> error + (real \<times> int) list) \<Rightarrow>
   indexer_state \<Rightarrow> string \<Rightarrow> int \<Rightarrow> (string \<times> pyval) list option \<Rightarrow> error + search_result list" where
  "search encode knn s query k filters =
     (case index s of
        None \<Rightarrow> Inr []
      | Some rows \<Rightarrow>
          if rows = [] then Inr []
          else (case encode query of
                  Inl e \<Rightarrow> Inl e
                | Inr query_embedding \<Rightarrow>
                    (let q = normalize_L2 query_embedding;
                         search_k = min (k * 2) (int (length rows))
                     in case knn rows q search_k of
                          Inl e \<Rightarrow> Inl e
                        | Inr hits \<Rightarrow> Inr (collect_results (document_store s) filters k hits []))))"

subsection \<open>Sequences of index operations\<close>

datatype index_op = Add "document list" | Delete "string list"

text \<open>One call; an \<open>add_documents\<close> call that raises leaves the state as it was.\<close>

fun apply_op :: "(string \<Rightarrow> error + vector) \<Rightarrow> indexer_state \<Rightarrow> index_op \<Rightarrow> indexer_state" where
  "apply_op encode s (Add documents) =
     (case add_documents encode s documents of Inl e \<Rightarrow> s | Inr (s', n) \<Rightarrow> s')"
| "apply_op encode s (Delete document_ids) = fst (delete_documents s document_ids)"

definition run_ops :: "(string \<Rightarrow> error + vector) \<Rightarrow> indexer_state \<Rightarrow> index_op list \<Rightarrow> indexer_state" where
  "run_ops encode s ops = foldl (apply_op encode) s ops"

text \<open>The rows of the index (none while the index does not exist).\<close>

definition index_rows :: "indexer_state \<Rightarrow> vector list" where
  "index_rows s = (case index s of None \<Rightarrow> [] | Some rows \<Rightarrow> rows)"

text \<open>
  A dictionary has every key once, and the Chunk Store is empty as long as no index
  exists (every state built by the operations from the empty state is so).
\<close>

definition store_wf :: "indexer_state \<Rightarrow> bool" where
  "store_wf s = (distinct (map fst (document_store s)) \<and> (index s = None \<longrightarrow> document_store s = []))"

text \<open>
  Positional alignment: every Chunk Store key is a row number of the index, and that row
  is the embedding of the entry's chunk text.
\<close>

definition aligned :: "(string \<Rightarrow> error + vector) \<Rightarrow> indexer_state \<Rightarrow> bool" where
  "aligned encode s =
     (\<forall>(p, m) \<in> set (document_store s).
        p < length (index_rows s) \<and> encode (content m) = Inr (index_rows s ! p))"

section \<open>Query engine\<close>

text \<open>The fields of \<open>QARequest\<close> that the engine reads.\<close>

record qa_request =
  req_query :: string
  req_filters :: "(string \<times> pyval) list option"
  max_results :: int
  confidence_threshold :: real
  include_context :: bool
  search_mode :: string

text \<open>\<open>filter_mapping.get(api_key, api_key)\<close>.\<close>

definition indexer_key :: "string \<Rightarrow> string" where
  "indexer_key api_key =
     (if api_key = ''project_id'' then ''project_ids''
      else if api_key = ''contractor'' then ''contractors''
      else if api_key = ''status'' then ''statuses''
      else if api_key = ''document_type'' then ''document_types''
      else if api_key = ''category'' then ''categories''
      else api_key)"

fun convert_items ::
  "(string \<times> pyval) list \<Rightarrow> (string \<times> pyval) list \<Rightarrow> (string \<times> pyval) list" where
  "convert_items converted [] = converted"
| "convert_items converted ((api_key, v) # rest) =
     (let k = indexer_key api_key;
          v' = (if k \<in> {''project_ids'', ''contractors'', ''statuses'', ''document_types'', ''categories''}
                then (case v of PList xs \<Rightarrow> v | _ \<Rightarrow> PList [v]) else v)
      in convert_items (AList.update k v' converted) rest)"

definition convert_filters :: "(string \<times> pyval) list option \<Rightarrow> (string \<times> pyval) list option" where
  "convert_filters filters =
     (case filters of
        None \<Rightarrow> None
      | Some fs \<Rightarrow> if fs = [] then None else Some (convert_items [] fs))"

text \<open>
  \<open>_keyword_search\<close>: a scan of the Chunk Store in insertion order. Its body raises
  nothing on a store built by \<open>add_documents\<close>, so its handler is not reached.
\<close>

definition keyword_score :: "(real \<Rightarrow> real) \<Rightarrow> string list \<Rightarrow> string \<Rightarrow> real" where
  "keyword_score fl query_words chunk_content =
     (let content_words = set (split (lower chunk_content));
          matches = filter (\<lambda>w. w \<in> content_words) query_words
      in if query_words \<noteq> [] then fl (real (length matches) / real (length query_words))
         else 0)"

fun keyword_scan ::
  "(real \<Rightarrow> real) \<Rightarrow> string list \<Rightarrow> (string \<times> pyval) list option \<Rightarrow>
   (nat \<times> chunk_metadata) list \<Rightarrow> search_result list" where
  "keyword_scan fl query_words filters [] = []"
| "keyword_scan fl query_words filters ((index_id, m) # rest) =
     (if filtered_out filters m then keyword_scan fl query_words filters rest
      else if keyword_score fl query_words (content m) > 0
      then to_result m (keyword_score fl query_words (content m)) #
           keyword_scan fl query_words filters rest
      else keyword_scan fl query_words filters rest)"

definition keyword_search ::
  "(real \<Rightarrow> real) \<Rightarrow> indexer_state \<Rightarrow> string \<Rightarrow> int \<Rightarrow> (string \<times> pyval) list option \<Rightarrow>
   search_result list" where
  "keyword_search fl s q k filters =
     py_take (sort_by_score_desc
                (keyword_scan fl (remdups (split (lower q))) filters (document_store s))) k"

text \<open>
  \<open>_search_documents\<close>: the mode dispatch and the confidence threshold inside \<open>try\<close>; when
  the search raises, the handler returns the empty list.
\<close>

definition search_documents ::
  "(real \<Rightarrow> real) \<Rightarrow> (string \<Rightarrow> error + vector) \<Rightarrow>
   (vector list \<Rightarrow> vector \<Rightarrow> int \<Rightarrow> error + (real \<times> int) list) \<Rightarrow>
   indexer_state \<Rightarrow> qa_request \<Rightarrow> search_result list" where
  "search_documents fl encode knn s request =
     (let indexer_filters = convert_filters (req_filters request)
      in case (if search_mode request = ''semantic''
               then search encode knn s (req_query request) (max_results request) indexer_filters
               else if search_mode request = ''keyword''
               then Inr (keyword_search fl s (req_query request) (max_results request) indexer_filters)
               else (case search encode knn s (req_query request) (max_results request div 2)
                            indexer_filters of
                       Inl e \<Rightarrow> Inl e
                     | Inr semantic_results \<Rightarrow>
                         Inr (merge_results fl semantic_results
                                (keyword_search fl s (req_query request) (max_results request div 2)
                                   indexer_filters)
                                (max_results request)))) of
           Inl e \<Rightarrow> []
         | Inr results \<Rightarrow> filter (\<lambda>result. score result \<ge> confidence_threshold request) results)"

subsection \<open>Answer synthesis\<close>

text \<open>
  The LLM collaborator is a parameter \<open>llm\<close>: from the system prompt and the user prompt to
  the text of the completion, or the fault raised anywhere in the call.
\<close>

definition system_prompt :: string where
  "system_prompt = ''You are a helpful assistant that answers questions based on provided context documents. Be accurate and concise.''"

definition answer_prompt :: "string \<Rightarrow> string \<Rightarrow> string" where
  "answer_prompt q combined_context =
     [CHR 0x0A] @ ''Based on the following context documents, answer the user'' @ [CHR 0x27] @
     ''s question.'' @ [CHR 0x0A] @
     ''Provide a clear, concise answer based only on the information provided.'' @ [CHR 0x0A] @
     ''If the context doesn'' @ [CHR 0x27] @
     ''t contain enough information to answer the question, say so.'' @ [CHR 0x0A, CHR 0x0A] @
     ''Question: '' @ q @ [CHR 0x0A, CHR 0x0A] @
     ''Context:'' @ [CHR 0x0A] @ combined_context @ [CHR 0x0A, CHR 0x0A] @ ''Answer:''"

text \<open>\<open>_generate_ai_answer\<close>: the answer text and its confidence; the handler's fallback pair when the call raises.\<close>

definition generate_ai_answer ::
  "(string \<Rightarrow> string \<Rightarrow> error + string) \<Rightarrow> string \<Rightarrow> string list \<Rightarrow> string \<times> real" where
  "generate_ai_answer llm q context_texts =
     (let combined_context = join [CHR 0x0A, CHR 0x0A] (py_take context_texts 5)
      in case llm system_prompt (answer_prompt q combined_context) of
           Inl e \<Rightarrow> (''Unable to generate AI answer'', 0.2)
         | Inr completion \<Rightarrow>
             (let answer = strip completion
              in (answer,
                  if length answer > 20 \<and>
                     \<not> sublist (''don'' @ [CHR 0x27] @ ''t have enough information'') (lower answer)
                  then 0.8 else 0.3)))"

text \<open>\<open>_get_related_queries\<close>.\<close>

definition related_patterns :: "(string \<times> string list) list" where
  "related_patterns =
     [(''obligation'', [''What are the deadlines for '', ''Who is responsible for '',
                        ''What are the penalties for '']),
      (''sla'', [''What is the SLA for '', ''What are the performance metrics for '',
                 ''What happens if SLA is not met for '']),
      (''payment'', [''What are the payment terms for '', ''When is payment due for '',
                     ''What are the late payment penalties for '']),
      (''project'', [''What are the deliverables for '', ''What is the timeline for '',
                     ''Who are the stakeholders for ''])]"

fun first_pattern :: "(string \<times> string list) list \<Rightarrow> string \<Rightarrow> string \<Rightarrow> string list" where
  "first_pattern [] query_lower ctx = []"
| "first_pattern ((pattern_type, templates) # rest) query_lower ctx =
     (if sublist pattern_type query_lower
      then map (\<lambda>t. t @ ctx @ ''?'') (py_take templates 2)
      else first_pattern rest query_lower ctx)"

definition get_related_queries :: "string \<Rightarrow> string list option" where
  "get_related_queries q =
     (let key_terms = filter (\<lambda>word. length word > 3) (split q);
          ctx = (case key_terms of [] \<Rightarrow> ''this project'' | w # ws \<Rightarrow> w);
          suggestions = first_pattern related_patterns (lower q) ctx;
          suggestions' = (if suggestions = []
                          then [''What are the obligations related to '' @ ctx @ ''?'',
                                ''What are the deadlines for '' @ ctx @ ''?'',
                                ''Who is responsible for '' @ ctx @ ''?'']
                          else suggestions)
      in Some (py_take suggestions' 3))"

text \<open>
  \<open>SourceReference\<close> and \<open>QAAnswer\<close>: validated models. Constructing one with a
  \<open>relevance_score\<close> or a \<open>confidence\<close> outside \<open>[0, 1]\<close> raises.
\<close>

record source_reference =
  src_document_id :: string
  document_name :: string
  src_document_type :: "string option"
  text_snippet :: string
  deep_link :: "string option"
  relevance_score :: real

record qa_answer =
  answer :: string
  confidence :: real
  answer_type :: string
  sources :: "source_reference list"
  related_queries :: "string list option"
  explanation :: "string option"

definition create_deep_link :: "search_result \<Rightarrow> string option" where
  "create_deep_link result =
     Some (''/documents/'' @ document_id result @ ''#chunk_'' @ chunk_id result)"

definition source_of :: "search_result \<Rightarrow> error + source_reference" where
  "source_of result =
     (if 0 \<le> score result \<and> score result \<le> 1
      then Inr \<lparr>src_document_id = document_id result,
                document_name = title result,
                src_document_type = document_type result,
                text_snippet = (if length (content result) > 200
                                then take 200 (content result) @ ''...'' else content result),
                deep_link = create_deep_link result,
                relevance_score = score result\<rparr>
      else Inl ValidationError)"

fun build_sources :: "search_result list \<Rightarrow> error + source_reference list" where
  "build_sources [] = Inr []"
| "build_sources (result # rest) =
     (case source_of result of
        Inl e \<Rightarrow> Inl e
      | Inr src \<Rightarrow> (case build_sources rest of Inl e \<Rightarrow> Inl e | Inr srcs \<Rightarrow> Inr (src # srcs)))"

definition error_answer :: qa_answer where
  "error_answer =
     \<lparr>answer = ''An error occurred while generating the answer.'', confidence = 0.0,
      answer_type = ''error'', sources = [], related_queries = None, explanation = None\<rparr>"

text \<open>
  \<open>_generate_answer\<close>; \<open>has_generator\<close> says whether \<open>self.answer_generator\<close> is set. Anything
  raised while the answer is built ends in the handler, which returns \<open>error_answer\<close>.
\<close>

definition generate_answer ::
  "bool \<Rightarrow> (string \<Rightarrow> string \<Rightarrow> error + string) \<Rightarrow> qa_request \<Rightarrow> search_result list \<Rightarrow> qa_answer" where
  "generate_answer has_generator llm request search_results =
     (case search_results of
        [] \<Rightarrow>
          \<lparr>answer = ''I couldn'' @ [CHR 0x27] @ ''t find any relevant information to answer your question.'',
           confidence = 0.0, answer_type = ''not_found'', sources = [],
           related_queries = get_related_queries (req_query request), explanation = None\<rparr>
      | best # others \<Rightarrow>
          (case build_sources search_results of
             Inl e \<Rightarrow> error_answer
           | Inr srcs \<Rightarrow>
               (let context_texts = map content search_results;
                    (answer_text, conf, atype) =
                      (if has_generator \<and> include_context request
                       then (let (a, c) = generate_ai_answer llm (req_query request) context_texts
                             in (a, c, ''synthesized''))
                       else (take 500 (content best), score best, ''direct''))
                in if 0 \<le> conf \<and> conf \<le> 1
                   then \<lparr>answer = answer_text, confidence = conf, answer_type = atype,
                         sources = srcs,
                         related_queries = get_related_queries (req_query request),
                         explanation =
                           (if atype = ''synthesized''
                            then Some (''Answer generated from '' @ digits (length srcs) @
                                       '' relevant document(s)'')
                            else None)\<rparr>
                   else error_answer)))"

text \<open>
  \<open>query\<close>, for an initialized engine: the answer and the number of search results (the
  processing metadata, a record of timing and parameters, is left out).
\<close>

record qa_result =
  result_query :: string
  result_answer :: qa_answer
  search_results_count :: nat

definition query ::
  "bool \<Rightarrow> (string \<Rightarrow> string \<Rightarrow> error + string) \<Rightarrow> (real \<Rightarrow> real) \<Rightarrow>
   (string \<Rightarrow> error + vector) \<Rightarrow>
   (vector list \<Rightarrow> vector \<Rightarrow> int \<Rightarrow> error + (real \<times> int) list) \<Rightarrow>
   indexer_state \<Rightarrow> qa_request \<Rightarrow> qa_result" where
  "query has_generator llm fl encode knn s request =
     (let search_results = search_documents fl encode knn s request;
          a = generate_answer has_generator llm request search_results
      in \<lparr>result_query = req_query request, result_answer = a,
          search_results_count = length search_results\<rparr>)"

section \<open>Sample data\<close>

definition sample_result :: "string \<Rightarrow> string \<Rightarrow> real \<Rightarrow> search_result" where
  "sample_result did cid sc =
     \<lparr>document_id = did, chunk_id = cid, content = ''monthly reports'', title = ''Contract'',
      metadata = [], document_type = None, timestamp = PNone, score = sc\<rparr>"

text \<open>
  Semantic and keyword hits with scores that binary64 holds exactly and for which the
  code's blend agrees with exact arithmetic (\<open>1 * 0.8 + 0.2\<close> evaluates to \<open>1.0\<close> in
  binary64 as well).
\<close>

definition sample_semantic :: "search_result list" where
  "sample_semantic =
     [sample_result ''D1'' ''a'' 0.75, sample_result ''D2'' ''b'' 0.25, sample_result ''D1'' ''a'' 0.125]"

definition sample_keyword :: "search_result list" where
  "sample_keyword = [sample_result ''D2'' ''b'' 1, sample_result ''D3'' ''c'' 1]"

definition sample_chunk :: "(string \<times> pyval) list \<Rightarrow> chunk_metadata" where
  "sample_chunk md =
     \<lparr>document_id = ''D1'', chunk_id = ''D1'', content = ''monthly reports'', title = ''Contract'',
      metadata = md, document_type = Some ''contract'', timestamp = PDatetime 1700000000,
      chunk_index = 0\<rparr>"

definition sample_doc :: "string \<Rightarrow> string \<Rightarrow> document" where
  "sample_doc did txt =
     \<lparr>doc_document_id = Some did, doc_content = txt, doc_title = ''Contract'',
      doc_metadata = [], doc_document_type = Some ''contract'', doc_timestamp = PNone\<rparr>"

text \<open>An embedding model for examples: a vector of norm 5 for every text.\<close>

definition sample_encode :: "string \<Rightarrow> error + vector" where
  "sample_encode t = Inr [3, 4]"

text \<open>Collaborators that fail on every call, an index state with one chunk, and a request.\<close>

definition failing_llm :: "string \<Rightarrow> string \<Rightarrow> error + string" where
  "failing_llm sp p = Inl LLMError"

definition failing_encode :: "string \<Rightarrow> error + vector" where
  "failing_encode t = Inl EmbeddingError"

definition sample_state :: indexer_state where
  "sample_state = \<lparr>index = Some [[3, 4]], document_store = [(0, sample_chunk [])],
                    embedding_dimension = 2\<rparr>"

definition sample_request :: "string \<Rightarrow> qa_request" where
  "sample_request mode =
     \<lparr>req_query = ''reports'', req_filters = None, max_results = 10, confidence_threshold = 0.5,
      include_context = True, search_mode = mode\<rparr>"

section \<open>Chunker: lemmas\<close>

lemma rfind_from_spec:
  "(c \<notin> set xs \<longrightarrow> rfind_from xs c i f = f) \<and>
   (c \<in> set xs \<longrightarrow> (\<exists>k<length xs. rfind_from xs c i f = i + int k \<and> xs ! k = c \<and>
        (\<forall>j. k < j \<and> j < length xs \<longrightarrow> xs ! j \<noteq> c)))"
proof (induction xs arbitrary: i f)
  case Nil
  then show ?case by simp
next
  case (Cons x xs)
  show ?case
  proof (cases "c \<in> set xs")
    case True
    with Cons.IH[of "i + 1" "if x = c then i else f"]
    obtain k where k: "k < length xs"
      "rfind_from xs c (i + 1) (if x = c then i else f) = i + 1 + int k" "xs ! k = c"
      "\<forall>j. k < j \<and> j < length xs \<longrightarrow> xs ! j \<noteq> c" by blast
    have nolater: "\<forall>j. Suc k < j \<and> j < length (x # xs) \<longrightarrow> (x # xs) ! j \<noteq> c"
    proof (intro allI impI)
      fix j assume j: "Suc k < j \<and> j < length (x # xs)"
      then obtain j' where j': "j = Suc j'" by (cases j) auto
      with j k(4) show "(x # xs) ! j \<noteq> c" by simp
    qed
    have "rfind_from (x # xs) c i f = i + int (Suc k)" using k(2) by simp
    with k(1,3) nolater
    have "Suc k < length (x # xs) \<and> rfind_from (x # xs) c i f = i + int (Suc k) \<and>
        (x # xs) ! Suc k = c \<and> (\<forall>j. Suc k < j \<and> j < length (x # xs) \<longrightarrow> (x # xs) ! j \<noteq> c)"
      by (intro conjI) simp_all
    then have "\<exists>k'<length (x # xs). rfind_from (x # xs) c i f = i + int k' \<and>
        (x # xs) ! k' = c \<and> (\<forall>j. k' < j \<and> j < length (x # xs) \<longrightarrow> (x # xs) ! j \<noteq> c)"
      by (rule_tac x = "Suc k" in exI)
    moreover have "c \<in> set (x # xs)" using True by simp
    ultimately show ?thesis by simp
  next
    case False
    show ?thesis
    proof (cases "x = c")
      case xc: True
      have r: "rfind_from (x # xs) c i f = i"
        using Cons.IH[of "i + 1" i] False xc by simp
      have nolater: "\<forall>j. 0 < j \<and> j < length (x # xs) \<longrightarrow> (x # xs) ! j \<noteq> c"
      proof (intro allI impI)
        fix j assume j: "0 < j \<and> j < length (x # xs)"
        then obtain j' where j': "j = Suc j'" by (cases j) auto
        with j have "xs ! j' \<in> set xs" by simp
        with False j' show "(x # xs) ! j \<noteq> c" by auto
      qed
      have "0 < length (x # xs) \<and> rfind_from (x # xs) c i f = i + int 0 \<and>
        (x # xs) ! 0 = c \<and> (\<forall>j. 0 < j \<and> j < length (x # xs) \<longrightarrow> (x # xs) ! j \<noteq> c)"
        using r xc nolater by (intro conjI) simp_all
      then have "\<exists>k'<length (x # xs). rfind_from (x # xs) c i f = i + int k' \<and>
        (x # xs) ! k' = c \<and> (\<forall>j. k' < j \<and> j < length (x # xs) \<longrightarrow> (x # xs) ! j \<noteq> c)"
        by (rule_tac x = 0 in exI)
      moreover have "c \<in> set (x # xs)" using xc by simp
      ultimately show ?thesis by simp
    next
      case xc: False
      with False Cons.IH[of "i + 1" f] show ?thesis by simp
    qed
  qed
qed

lemma rfind_notin: "c \<notin> set s \<Longrightarrow> rfind s c = - 1"
  using rfind_from_spec[of c s 0 "- 1"] by (simp add: rfind_def)

lemma rfind_in:
  "c \<in> set s \<Longrightarrow> \<exists>k<length s. rfind s c = int k \<and> s ! k = c \<and>
      (\<forall>j. k < j \<and> j < length s \<longrightarrow> s ! j \<noteq> c)"
  using rfind_from_spec[of c s 0 "- 1"] by (simp add: rfind_def)

lemma rfind_range: "- 1 \<le> rfind s c \<and> rfind s c < int (length s)"
proof (cases "c \<in> set s")
  case True
  from rfind_in[OF this] show ?thesis by auto
next
  case False
  then show ?thesis by (simp add: rfind_notin)
qed

lemma rfind_le_last:
  assumes "last_terminator w k" "is_terminator c"
  shows "rfind w c \<le> int k"
proof (cases "c \<in> set w")
  case True
  from rfind_in[OF this] obtain k' where k': "k' < length w" "rfind w c = int k'" "w ! k' = c"
    by blast
  have "k' \<le> k"
  proof (rule ccontr)
    assume "\<not> k' \<le> k"
    with k'(1) have "k' \<in> {Suc k ..< length w}" by simp
    with assms(1) have "\<not> is_terminator (w ! k')" unfolding last_terminator_def by blast
    with k'(3) assms(2) show False by simp
  qed
  with k'(2) show ?thesis by simp
next
  case False
  then show ?thesis by (simp add: rfind_notin)
qed

lemma rfind_at_last:
  assumes "last_terminator w k"
  shows "rfind w (w ! k) = int k"
proof -
  from assms have kl: "k < length w" and t: "is_terminator (w ! k)"
    unfolding last_terminator_def by auto
  then have "w ! k \<in> set w" by simp
  from rfind_in[OF this] obtain k' where k': "k' < length w" "rfind w (w ! k) = int k'"
    "\<forall>j. k' < j \<and> j < length w \<longrightarrow> w ! j \<noteq> w ! k" by blast
  from k'(3) kl have "k \<le> k'" by (metis not_le_imp_less)
  moreover from rfind_le_last[OF assms t] k'(2) have "k' \<le> k" by simp
  ultimately show ?thesis using k'(2) by simp
qed

lemma last_sentence_end_last:
  assumes "last_terminator w k"
  shows "last_sentence_end w = int k"
proof -
  have a: "rfind w (CHR ''.'') \<le> int k" "rfind w (CHR ''!'') \<le> int k" "rfind w (CHR ''?'') \<le> int k"
    using rfind_le_last[OF assms] by (simp_all add: is_terminator_def)
  from assms have "is_terminator (w ! k)" unfolding last_terminator_def by simp
  then have "w ! k = CHR ''.'' \<or> w ! k = CHR ''!'' \<or> w ! k = CHR ''?''"
    by (simp add: is_terminator_def)
  with rfind_at_last[OF assms]
  have b: "rfind w (CHR ''.'') = int k \<or> rfind w (CHR ''!'') = int k \<or> rfind w (CHR ''?'') = int k"
    by metis
  from a b show ?thesis unfolding last_sentence_end_def by linarith
qed

lemma last_sentence_end_none:
  assumes "\<forall>x \<in> set w. \<not> is_terminator x"
  shows "last_sentence_end w = - 1"
proof -
  from assms have "CHR ''.'' \<notin> set w" "CHR ''!'' \<notin> set w" "CHR ''?'' \<notin> set w"
    by (auto simp: is_terminator_def)
  then show ?thesis by (simp add: last_sentence_end_def rfind_notin)
qed

lemma last_sentence_end_range:
  "- 1 \<le> last_sentence_end w \<and> last_sentence_end w < int (length w)"
  using rfind_range[of w "CHR ''.''"] rfind_range[of w "CHR ''!''"] rfind_range[of w "CHR ''?''"]
  unfolding last_sentence_end_def by (simp add: max_def)

lemma slice_bound_nonneg: "0 \<le> i \<Longrightarrow> slice_bound i n = min i n"
  by (simp add: slice_bound_def)

lemma py_slice_nonneg:
  assumes "0 \<le> a" "0 \<le> b"
  shows "py_slice xs a b = take (nat b - nat a) (drop (nat a) xs)"
proof (cases "a \<le> int (length xs)")
  case True
  then have a': "slice_bound a (int (length xs)) = a" using assms by (simp add: slice_bound_nonneg)
  show ?thesis
  proof (cases "b \<le> int (length xs)")
    case b: True
    then have "slice_bound b (int (length xs)) = b" using assms by (simp add: slice_bound_nonneg)
    with a' show ?thesis using assms by (simp add: py_slice_def nat_diff_distrib')
  next
    case b: False
    then have "slice_bound b (int (length xs)) = int (length xs)" using assms by (simp add: slice_bound_nonneg)
    with a' b True show ?thesis using assms by (simp add: py_slice_def nat_diff_distrib')
  qed
next
  case False
  then have "slice_bound a (int (length xs)) = int (length xs)" using assms by (simp add: slice_bound_nonneg)
  with False show ?thesis using assms by (simp add: py_slice_def)
qed

lemma half_less_iff: "(real_of_int c * 0.5 < real_of_int l) = (c < 2 * l)"
proof -
  have "(real_of_int c * 0.5 < real_of_int l) = (real_of_int c < real_of_int (2 * l))"
    by (simp add: mult.commute)
  also have "\<dots> = (c < 2 * l)" by (simp only: of_int_less_iff)
  finally show ?thesis .
qed

lemma length_window:
  assumes "0 \<le> start" "0 < cs" "start + cs < int (length text)"
  shows "length (py_slice text start (start + cs)) = nat cs"
proof -
  have "nat (start + cs) - nat start = nat cs" using assms by linarith
  moreover have "nat cs \<le> length text - nat start" using assms by linarith
  ultimately show ?thesis using assms by (simp add: py_slice_nonneg)
qed

lemma window_end_cases:
  "window_end text cs start =
     (if start + cs < int (length text) \<and> cs < 2 * last_sentence_end (py_slice text start (start + cs))
      then start + last_sentence_end (py_slice text start (start + cs)) + 1 else start + cs)"
  by (simp add: window_end_def Let_def half_less_iff)

lemma window_end_bounds:
  assumes "0 \<le> start" "0 < cs"
  shows "window_end text cs start \<le> start + cs \<and> cs < 2 * (window_end text cs start - start)"
proof (cases "start + cs < int (length text) \<and> cs < 2 * last_sentence_end (py_slice text start (start + cs))")
  case True
  have e: "window_end text cs start = start + last_sentence_end (py_slice text start (start + cs)) + 1"
    by (simp only: window_end_cases if_P[OF True])
  from True assms have "length (py_slice text start (start + cs)) = nat cs"
    by (simp add: length_window)
  with last_sentence_end_range[of "py_slice text start (start + cs)"] assms
  have "last_sentence_end (py_slice text start (start + cs)) < cs" by simp
  with e True show ?thesis by simp
next
  case False
  have "window_end text cs start = start + cs"
    by (simp only: window_end_cases if_not_P[OF False])
  with assms show ?thesis by simp
qed

lemma window_end_last_terminator:
  assumes "start + cs < int (length text)" "last_terminator (py_slice text start (start + cs)) k"
  shows "window_end text cs start = (if cs < 2 * int k then start + int k + 1 else start + cs)"
  using assms by (simp add: window_end_cases last_sentence_end_last)

lemma window_end_no_terminator:
  assumes "0 < cs" "\<forall>x \<in> set (py_slice text start (start + cs)). \<not> is_terminator x"
  shows "window_end text cs start = start + cs"
  using assms by (simp add: window_end_cases last_sentence_end_none)

lemma window_end_at_tail:
  assumes "int (length text) \<le> start + cs"
  shows "window_end text cs start = start + cs"
  using assms by (simp add: window_end_cases)

lemma chunk_loop_step:
  assumes "start < int (length text)"
  shows "chunk_loop text cs ov start chunks =
     (if int (length text) \<le> window_end text cs start - ov
      then Some (if strip (py_slice text start (window_end text cs start)) \<noteq> []
                 then chunks @ [strip (py_slice text start (window_end text cs start))] else chunks)
      else chunk_loop text cs ov (window_end text cs start - ov)
             (if strip (py_slice text start (window_end text cs start)) \<noteq> []
              then chunks @ [strip (py_slice text start (window_end text cs start))] else chunks))"
  using assms by (subst chunk_loop.simps) (simp add: Let_def)

lemma chunk_loop_done:
  assumes "\<not> start < int (length text)"
  shows "chunk_loop text cs ov start chunks = Some chunks"
  using assms by (subst chunk_loop.simps) simp

lemma chunk_loop_returns:
  assumes "0 < cs" "2 * ov \<le> cs" "0 \<le> start"
  shows "\<exists>out. chunk_loop text cs ov start chunks = Some (chunks @ out) \<and> (\<forall>c \<in> set out. c \<noteq> [])"
  using assms(3)
proof (induction "nat (int (length text) - start)" arbitrary: start chunks rule: less_induct)
  case less
  show ?case
  proof (cases "start < int (length text)")
    case False
    then have "chunk_loop text cs ov start chunks = Some (chunks @ [])"
      by (simp add: chunk_loop_done)
    then show ?thesis by (rule_tac x = "[]" in exI) simp
  next
    case True
    define e where "e = window_end text cs start"
    define new where "new = (if strip (py_slice text start e) \<noteq> [] then [strip (py_slice text start e)] else [])"
    have new: "(if strip (py_slice text start e) \<noteq> [] then chunks @ [strip (py_slice text start e)] else chunks) = chunks @ new"
      by (simp add: new_def)
    have ne: "\<forall>c \<in> set new. c \<noteq> []" by (simp add: new_def)
    from window_end_bounds[OF less.prems assms(1), of "text"] assms(2)
    have adv: "start < e - ov" unfolding e_def by presburger
    have unf: "chunk_loop text cs ov start chunks =
       (if int (length text) \<le> e - ov then Some (chunks @ new)
        else chunk_loop text cs ov (e - ov) (chunks @ new))"
      unfolding chunk_loop_step[OF True] e_def[symmetric] new by (rule refl)
    show ?thesis
    proof (cases "int (length text) \<le> e - ov")
      case fin: True
      have "chunk_loop text cs ov start chunks = Some (chunks @ new)"
        using fin unf by simp
      with ne show ?thesis by blast
    next
      case cont: False
      have step: "chunk_loop text cs ov start chunks = chunk_loop text cs ov (e - ov) (chunks @ new)"
        using cont unf by simp
      have "nat (int (length text) - (e - ov)) < nat (int (length text) - start)"
        using adv True by linarith
      moreover have "0 \<le> e - ov" using adv less.prems by linarith
      ultimately obtain out where out: "chunk_loop text cs ov (e - ov) (chunks @ new) = Some ((chunks @ new) @ out)"
        "\<forall>c \<in> set out. c \<noteq> []"
        using less.hyps[of "e - ov" "chunks @ new"] by blast
      from step out(1) have "chunk_loop text cs ov start chunks = Some (chunks @ (new @ out))" by simp
      moreover from ne out(2) have "\<forall>c \<in> set (new @ out). c \<noteq> []" by auto
      ultimately show ?thesis by blast
    qed
  qed
qed

lemma chunk_text_default_returns: "\<exists>chunks. chunk_text text 512 50 = Some chunks"
proof (cases "int (length text) \<le> 512")
  case True
  then show ?thesis by (simp add: chunk_text_def)
next
  case False
  from chunk_loop_returns[of 512 50 0 "text" "[]"] obtain out where
    "chunk_loop text 512 50 0 [] = Some out" by auto
  with False show ?thesis by (simp add: chunk_text_def)
qed

lemma lstrip_append_nonblank:
  assumes "\<exists>x \<in> set A. \<not> is_space x"
  shows "dropWhile is_space (A @ B) = dropWhile is_space A @ B"
proof -
  from assms obtain x where "x \<in> set A" "\<not> is_space x" by blast
  then show ?thesis by (rule dropWhile_append1)
qed

lemma lstrip_append_ex: "\<exists>X. dropWhile is_space (P @ R) = X @ dropWhile is_space R"
proof (cases "\<forall>x \<in> set P. is_space x")
  case True
  then have "dropWhile is_space (P @ R) = [] @ dropWhile is_space R" by (simp add: dropWhile_append)
  then show ?thesis by blast
next
  case False
  then have "dropWhile is_space (P @ R) = dropWhile is_space P @ R"
    by (intro lstrip_append_nonblank) blast
  also have "\<dots> = (dropWhile is_space P @ takeWhile is_space R) @ dropWhile is_space R" by simp
  finally show ?thesis by blast
qed

lemma lstrip_nonblank:
  assumes "\<exists>x \<in> set R. \<not> is_space x"
  shows "\<exists>x \<in> set (dropWhile is_space R). \<not> is_space x"
proof -
  from assms have "dropWhile is_space R \<noteq> []" by auto
  then have "\<not> is_space (hd (dropWhile is_space R))" by (rule hd_dropWhile)
  moreover have "hd (dropWhile is_space R) \<in> set (dropWhile is_space R)"
    using \<open>dropWhile is_space R \<noteq> []\<close> by simp
  ultimately show ?thesis by blast
qed

lemma rstrip_append_nonblank:
  assumes "\<exists>x \<in> set B. \<not> is_space x"
  shows "rev (dropWhile is_space (rev (A @ B))) = A @ rev (dropWhile is_space (rev B))"
proof -
  from assms have "\<exists>x \<in> set (rev B). \<not> is_space x" by simp
  then have "dropWhile is_space (rev B @ rev A) = dropWhile is_space (rev B) @ rev A"
    by (rule lstrip_append_nonblank)
  then show ?thesis by simp
qed

lemma rstrip_append_ex:
  "\<exists>Y. rev (dropWhile is_space (rev (A @ B))) = rev (dropWhile is_space (rev A)) @ Y"
proof -
  from lstrip_append_ex[of "rev B" "rev A"] obtain X where
    "dropWhile is_space (rev B @ rev A) = X @ dropWhile is_space (rev A)" by blast
  then have "rev (dropWhile is_space (rev (A @ B))) = rev (dropWhile is_space (rev A)) @ rev X"
    by simp
  then show ?thesis by blast
qed

lemma strip_nonblank:
  assumes "\<exists>x \<in> set R. \<not> is_space x"
  shows "strip R \<noteq> []"
proof -
  from lstrip_nonblank[OF assms] have "\<exists>x \<in> set (rev (dropWhile is_space R)). \<not> is_space x" by simp
  then have "dropWhile is_space (rev (dropWhile is_space R)) \<noteq> []" by auto
  then show ?thesis by (simp add: strip_def)
qed

lemma strip_blank:
  assumes "\<forall>x \<in> set R. is_space x"
  shows "strip R = []"
proof -
  from assms have d: "dropWhile is_space R = []" by (simp only: dropWhile_eq_Nil_conv)
  show ?thesis unfolding strip_def d by simp
qed

lemma length_strip_le: "length (strip R) \<le> length R"
proof -
  have "length (dropWhile is_space (rev (dropWhile is_space R))) \<le> length (rev (dropWhile is_space R))"
    by (rule length_dropWhile_le)
  moreover have "length (dropWhile is_space R) \<le> length R" by (rule length_dropWhile_le)
  ultimately show ?thesis by (simp add: strip_def)
qed

lemma strip_suffix:
  assumes "\<exists>x \<in> set R. \<not> is_space x"
  shows "\<exists>X. strip (P @ R) = X @ strip R"
proof -
  from lstrip_append_ex[of P R] obtain X where
    X: "dropWhile is_space (P @ R) = X @ dropWhile is_space R" by blast
  have "strip (P @ R) = rev (dropWhile is_space (rev (X @ dropWhile is_space R)))"
    by (simp only: strip_def X)
  also have "\<dots> = X @ rev (dropWhile is_space (rev (dropWhile is_space R)))"
    by (rule rstrip_append_nonblank) (rule lstrip_nonblank[OF assms])
  finally show ?thesis by (simp add: strip_def)
qed

lemma strip_prefix:
  assumes "\<exists>x \<in> set R. \<not> is_space x"
  shows "\<exists>Y. strip (R @ Q) = strip R @ Y"
proof -
  have "strip (R @ Q) = rev (dropWhile is_space (rev (dropWhile is_space R @ Q)))"
    by (simp only: strip_def lstrip_append_nonblank[OF assms])
  with rstrip_append_ex[of "dropWhile is_space R" Q] show ?thesis by (simp add: strip_def)
qed

lemma strip_shares_overlap:
  assumes "\<exists>x \<in> set R. \<not> is_space x" "length R \<le> n"
  shows "shares_overlap n (strip (P @ R)) (strip (R @ Q)) \<and>
         strip (P @ R) \<noteq> [] \<and> strip (R @ Q) \<noteq> []"
proof -
  from strip_suffix[OF assms(1), of P] obtain X where X: "strip (P @ R) = X @ strip R" by blast
  from strip_prefix[OF assms(1), of Q] obtain Y where Y: "strip (R @ Q) = strip R @ Y" by blast
  have ne: "strip R \<noteq> []" by (rule strip_nonblank[OF assms(1)])
  have le: "length (strip R) \<le> n" using length_strip_le[of R] assms(2) by linarith
  have "shares_overlap n (X @ strip R) (strip R @ Y)"
    unfolding shares_overlap_def
  proof (rule bexI[of _ "length (strip R)"])
    show "length (strip R) \<le> length (X @ strip R) \<and> length (strip R) \<le> length (strip R @ Y) \<and>
      drop (length (X @ strip R) - length (strip R)) (X @ strip R) = take (length (strip R)) (strip R @ Y)"
      by simp
    show "length (strip R) \<in> {1 .. n}" using ne le by (simp add: Suc_le_eq)
  qed
  with X Y ne show ?thesis by simp
qed

lemma py_slice_split:
  assumes "0 \<le> a" "a \<le> m" "m \<le> b"
  shows "py_slice xs a b = py_slice xs a m @ py_slice xs m b"
proof -
  have b: "0 \<le> b" "0 \<le> m" using assms by linarith+
  have "nat b - nat a = (nat m - nat a) + (nat b - nat m)" using assms by linarith
  then have "take (nat b - nat a) (drop (nat a) xs) =
     take (nat m - nat a) (drop (nat a) xs) @ take (nat b - nat m) (drop (nat m - nat a) (drop (nat a) xs))"
    by (simp only: take_add)
  moreover have "nat m - nat a + nat a = nat m" using assms by linarith
  ultimately show ?thesis using assms b by (simp add: py_slice_nonneg)
qed

lemma length_py_slice:
  assumes "0 \<le> a" "0 \<le> b"
  shows "length (py_slice xs a b) = min (nat b - nat a) (length xs - nat a)"
  using assms by (simp add: py_slice_nonneg min.commute)

lemma window_loop_step:
  assumes "start < int (length text)"
  shows "window_loop text cs ov start ws =
     (if int (length text) \<le> window_end text cs start - ov
      then Some (ws @ [(start, window_end text cs start)])
      else window_loop text cs ov (window_end text cs start - ov)
             (ws @ [(start, window_end text cs start)]))"
  using assms by (subst window_loop.simps) (simp add: Let_def)

lemma loops_agree:
  assumes "0 < cs" "0 \<le> ov" "2 * ov \<le> cs" "0 \<le> start" "start < int (length text)"
  shows "\<exists>wout. window_loop text cs ov start ws = Some (ws @ wout) \<and>
      chunk_loop text cs ov start chunks =
        Some (chunks @ filter (\<lambda>c. c \<noteq> []) (map (window_chunk text) wout)) \<and>
      wout \<noteq> [] \<and> fst (hd wout) = start \<and>
      (\<forall>w \<in> set wout. 0 \<le> fst w \<and> fst w < int (length text) \<and>
          snd w = window_end text cs (fst w)) \<and>
      successively (\<lambda>w w'. fst w' = snd w - ov) wout \<and>
      (start + cs < int (length text) \<longrightarrow> 2 \<le> length wout)"
  using assms(4,5)
proof (induction "nat (int (length text) - start)" arbitrary: start ws chunks rule: less_induct)
  case less
  define e where "e = window_end text cs start"
  define new where "new = filter (\<lambda>c. c \<noteq> []) (map (window_chunk text) [(start, e)])"
  have new: "(if strip (py_slice text start e) \<noteq> [] then chunks @ [strip (py_slice text start e)]
      else chunks) = chunks @ new"
    by (simp add: new_def window_chunk_def)
  from window_end_bounds[OF less.prems(1) assms(1), of "text"] assms(3)
  have adv: "start < e - ov" and ub: "e \<le> start + cs" unfolding e_def by presburger+
  have unf: "chunk_loop text cs ov start chunks =
       (if int (length text) \<le> e - ov then Some (chunks @ new)
        else chunk_loop text cs ov (e - ov) (chunks @ new))"
    unfolding chunk_loop_step[OF less.prems(2)] e_def[symmetric] new by (rule refl)
  have wunf: "window_loop text cs ov start ws =
       (if int (length text) \<le> e - ov then Some (ws @ [(start, e)])
        else window_loop text cs ov (e - ov) (ws @ [(start, e)]))"
    unfolding window_loop_step[OF less.prems(2)] e_def[symmetric] by (rule refl)
  have props: "0 \<le> fst (start, e) \<and> fst (start, e) < int (length text) \<and>
      snd (start, e) = window_end text cs (fst (start, e))"
    using less.prems by (simp add: e_def)
  show ?case
  proof (cases "int (length text) \<le> e - ov")
    case fin: True
    have w: "window_loop text cs ov start ws = Some (ws @ [(start, e)])"
      using fin wunf by simp
    have c: "chunk_loop text cs ov start chunks =
        Some (chunks @ filter (\<lambda>c. c \<noteq> []) (map (window_chunk text) [(start, e)]))"
      using fin unf by (simp add: new_def)
    have l: "start + cs < int (length text) \<longrightarrow> 2 \<le> length [(start, e)]"
      using fin ub assms(2) by linarith
    show ?thesis
    proof (rule exI[of _ "[(start, e)]"], intro conjI)
      show "window_loop text cs ov start ws = Some (ws @ [(start, e)])" by (rule w)
      show "chunk_loop text cs ov start chunks =
        Some (chunks @ filter (\<lambda>c. c \<noteq> []) (map (window_chunk text) [(start, e)]))" by (rule c)
      show "[(start, e)] \<noteq> []" by simp
      show "fst (hd [(start, e)]) = start" by simp
      show "\<forall>w \<in> set [(start, e)]. 0 \<le> fst w \<and> fst w < int (length text) \<and>
          snd w = window_end text cs (fst w)" using props by simp
      show "successively (\<lambda>w w'. fst w' = snd w - ov) [(start, e)]" by simp
      show "start + cs < int (length text) \<longrightarrow> 2 \<le> length [(start, e)]" by (rule l)
    qed
  next
    case cont: False
    have wstep: "window_loop text cs ov start ws = window_loop text cs ov (e - ov) (ws @ [(start, e)])"
      using cont wunf by simp
    have cstep: "chunk_loop text cs ov start chunks = chunk_loop text cs ov (e - ov) (chunks @ new)"
      using cont unf by simp
    have m: "nat (int (length text) - (e - ov)) < nat (int (length text) - start)"
      using adv less.prems by linarith
    have p1: "0 \<le> e - ov" using adv less.prems by linarith
    have p2: "e - ov < int (length text)" using cont by linarith
    from less.hyps[OF m p1 p2, of "ws @ [(start, e)]" "chunks @ new"] obtain wout where
      o1: "window_loop text cs ov (e - ov) (ws @ [(start, e)]) = Some ((ws @ [(start, e)]) @ wout)"
      and o2: "chunk_loop text cs ov (e - ov) (chunks @ new) =
        Some ((chunks @ new) @ filter (\<lambda>c. c \<noteq> []) (map (window_chunk text) wout))"
      and o3: "wout \<noteq> []" and o4: "fst (hd wout) = e - ov"
      and o5: "\<forall>w \<in> set wout. 0 \<le> fst w \<and> fst w < int (length text) \<and>
          snd w = window_end text cs (fst w)"
      and o6: "successively (\<lambda>w w'. fst w' = snd w - ov) wout"
      by blast
    show ?thesis
    proof (rule exI[of _ "(start, e) # wout"], intro conjI)
      show "window_loop text cs ov start ws = Some (ws @ (start, e) # wout)"
        using wstep o1 by simp
      show "chunk_loop text cs ov start chunks =
        Some (chunks @ filter (\<lambda>c. c \<noteq> []) (map (window_chunk text) ((start, e) # wout)))"
        using cstep o2 by (simp add: new_def)
      show "(start, e) # wout \<noteq> []" by simp
      show "fst (hd ((start, e) # wout)) = start" by simp
      show "\<forall>w \<in> set ((start, e) # wout). 0 \<le> fst w \<and> fst w < int (length text) \<and>
          snd w = window_end text cs (fst w)" using props o5 by simp
      show "successively (\<lambda>w w'. fst w' = snd w - ov) ((start, e) # wout)"
        using o3 o4 o6 by (simp add: successively_Cons)
      show "start + cs < int (length text) \<longrightarrow> 2 \<le> length ((start, e) # wout)"
        using o3 by (cases wout) simp_all
    qed
  qed
qed

lemma window_pair:
  assumes "0 < cs" "0 < ov" "2 * ov \<le> cs"
    "0 \<le> a" "a < int (length text)" "b = window_end text cs a"
    "a' = b - ov" "a' < int (length text)" "b' = window_end text cs a'"
  shows "py_slice text a b = py_slice text a a' @ py_slice text a' b \<and>
         py_slice text a' b' = py_slice text a' b @ py_slice text b b' \<and>
         py_slice text a' b \<noteq> [] \<and> length (py_slice text a' b) \<le> nat ov"
proof -
  from window_end_bounds[OF assms(4) assms(1), of "text"] assms(3,6,7)
  have aa: "a < a'" by presburger
  then have a0: "0 \<le> a'" using assms(4) by linarith
  from window_end_bounds[OF a0 assms(1), of "text"]
  have "cs < 2 * (b' - a')" unfolding assms(9) by simp
  with assms(3,7) have bb: "b < b'" by presburger
  have ab: "a' < b" using assms(2,7) by linarith
  have b0: "0 \<le> b" using ab a0 by linarith
  have s1: "py_slice text a b = py_slice text a a' @ py_slice text a' b"
    by (rule py_slice_split) (use assms(4) aa ab in linarith)+
  have s2: "py_slice text a' b' = py_slice text a' b @ py_slice text b b'"
    by (rule py_slice_split) (use a0 ab bb in linarith)+
  have l: "length (py_slice text a' b) = min (nat b - nat a') (length text - nat a')"
    by (rule length_py_slice[OF a0 b0])
  have "0 < nat b - nat a'" using ab a0 by linarith
  moreover have "0 < length text - nat a'" using assms(8) a0 by linarith
  ultimately have "0 < length (py_slice text a' b)" unfolding l by simp
  then have ne: "py_slice text a' b \<noteq> []" by simp
  have "nat b - nat a' \<le> nat ov" using assms(7) by linarith
  then have le: "length (py_slice text a' b) \<le> nat ov" unfolding l by (rule min.coboundedI1)
  from s1 s2 ne le show ?thesis by (intro conjI)
qed

lemma set_py_slice: "set (py_slice xs a b) \<subseteq> set xs"
proof -
  have "set (take n (drop k xs)) \<subseteq> set xs" for n k
    using set_take_subset[of n "drop k xs"] set_drop_subset[of k xs] by blast
  then show ?thesis by (simp add: py_slice_def Let_def)
qed

lemma filter_map_adjacent:
  assumes "Suc i < length xs" "f (xs ! i) \<noteq> []" "f (xs ! Suc i) \<noteq> []"
  shows "\<exists>pre post. filter (\<lambda>c. c \<noteq> []) (map f xs) = pre @ f (xs ! i) # f (xs ! Suc i) # post"
proof -
  have i: "i < length xs" using assms(1) by simp
  have "xs = take i xs @ xs ! i # drop (Suc i) xs" using i by (rule id_take_nth_drop)
  also have "drop (Suc i) xs = xs ! Suc i # drop (Suc (Suc i)) xs"
    using assms(1) by (rule Cons_nth_drop_Suc[symmetric])
  finally have xs: "xs = take i xs @ xs ! i # xs ! Suc i # drop (Suc (Suc i)) xs" .
  have "filter (\<lambda>c. c \<noteq> []) (map f (take i xs @ xs ! i # xs ! Suc i # drop (Suc (Suc i)) xs)) =
        filter (\<lambda>c. c \<noteq> []) (map f (take i xs)) @ f (xs ! i) # f (xs ! Suc i) #
        filter (\<lambda>c. c \<noteq> []) (map f (drop (Suc (Suc i)) xs))"
    using assms(2,3) by simp
  with xs show ?thesis by metis
qed

lemma windows_pair_nth:
  assumes "0 < cs" "0 < ov" "2 * ov \<le> cs"
    "\<forall>w \<in> set ws. 0 \<le> fst w \<and> fst w < int (length text) \<and> snd w = window_end text cs (fst w)"
    "successively (\<lambda>w w'. fst w' = snd w - ov) ws" "Suc i < length ws"
  shows "overlap_region text (ws ! i) (ws ! Suc i) \<noteq> [] \<and>
     length (overlap_region text (ws ! i) (ws ! Suc i)) \<le> nat ov \<and>
     (\<exists>P. py_slice text (fst (ws ! i)) (snd (ws ! i)) = P @ overlap_region text (ws ! i) (ws ! Suc i)) \<and>
     (\<exists>Q. py_slice text (fst (ws ! Suc i)) (snd (ws ! Suc i)) =
           overlap_region text (ws ! i) (ws ! Suc i) @ Q) \<and>
     (region_nonblank text (ws ! i) (ws ! Suc i) \<longrightarrow>
        shares_overlap (nat ov) (window_chunk text (ws ! i)) (window_chunk text (ws ! Suc i)) \<and>
        window_chunk text (ws ! i) \<noteq> [] \<and> window_chunk text (ws ! Suc i) \<noteq> [])"
proof -
  define a where "a = fst (ws ! i)"
  define b where "b = snd (ws ! i)"
  define a' where "a' = fst (ws ! Suc i)"
  define b' where "b' = snd (ws ! Suc i)"
  define R where "R = py_slice text a' b"
  have m1: "ws ! i \<in> set ws" using assms(6) by simp
  have m2: "ws ! Suc i \<in> set ws" using assms(6) by simp
  from assms(4) m1 have w1: "0 \<le> a" "a < int (length text)" "b = window_end text cs a"
    unfolding a_def b_def by blast+
  from assms(4) m2 have w2: "a' < int (length text)" "b' = window_end text cs a'"
    unfolding a'_def b'_def by blast+
  from assms(5,6) have ch: "a' = b - ov"
    unfolding a'_def b_def successively_conv_nth by blast
  from window_pair[OF assms(1,2,3) w1 ch w2]
  have s1: "py_slice text a b = py_slice text a a' @ R"
    and s2: "py_slice text a' b' = R @ py_slice text b b'"
    and ne: "R \<noteq> []" and le: "length R \<le> nat ov"
    unfolding R_def by blast+
  have reg: "overlap_region text (ws ! i) (ws ! Suc i) = R"
    by (simp add: overlap_region_def R_def a'_def b_def)
  have c1: "window_chunk text (ws ! i) = strip (py_slice text a a' @ R)"
    by (simp add: window_chunk_def a_def[symmetric] b_def[symmetric] s1)
  have c2: "window_chunk text (ws ! Suc i) = strip (R @ py_slice text b b')"
    by (simp add: window_chunk_def a'_def[symmetric] b'_def[symmetric] s2)
  have nb: "region_nonblank text (ws ! i) (ws ! Suc i) \<longrightarrow>
        shares_overlap (nat ov) (window_chunk text (ws ! i)) (window_chunk text (ws ! Suc i)) \<and>
        window_chunk text (ws ! i) \<noteq> [] \<and> window_chunk text (ws ! Suc i) \<noteq> []"
  proof
    assume "region_nonblank text (ws ! i) (ws ! Suc i)"
    then have "\<exists>x \<in> set R. \<not> is_space x" by (simp add: region_nonblank_def reg)
    from strip_shares_overlap[OF this le, of "py_slice text a a'" "py_slice text b b'"]
    show "shares_overlap (nat ov) (window_chunk text (ws ! i)) (window_chunk text (ws ! Suc i)) \<and>
        window_chunk text (ws ! i) \<noteq> [] \<and> window_chunk text (ws ! Suc i) \<noteq> []"
      unfolding c1 c2 .
  qed
  have p: "\<exists>P. py_slice text (fst (ws ! i)) (snd (ws ! i)) = P @ overlap_region text (ws ! i) (ws ! Suc i)"
    unfolding reg a_def[symmetric] b_def[symmetric] using s1 by blast
  have q: "\<exists>Q. py_slice text (fst (ws ! Suc i)) (snd (ws ! Suc i)) =
           overlap_region text (ws ! i) (ws ! Suc i) @ Q"
    unfolding reg a'_def[symmetric] b'_def[symmetric] using s2 by blast
  from ne le p q nb show ?thesis unfolding reg by (intro conjI)
qed

lemma windows_all_nonblank:
  assumes "2 \<le> length ws"
    "\<And>i. Suc i < length ws \<Longrightarrow> region_nonblank text (ws ! i) (ws ! Suc i) \<Longrightarrow>
       shares_overlap n (f (ws ! i)) (f (ws ! Suc i)) \<and> f (ws ! i) \<noteq> [] \<and> f (ws ! Suc i) \<noteq> []"
    "\<forall>i. Suc i < length ws \<longrightarrow> region_nonblank text (ws ! i) (ws ! Suc i)"
  shows "filter (\<lambda>c. c \<noteq> []) (map f ws) = map f ws \<and> successively (shares_overlap n) (map f ws)"
proof -
  have ne: "f (ws ! j) \<noteq> []" if j: "j < length ws" for j
  proof (cases "Suc j < length ws")
    case True
    with assms(2)[of j] assms(3) show ?thesis by blast
  next
    case False
    with j assms(1) obtain k where k: "j = Suc k" by (cases j) auto
    with j assms(2)[of k] assms(3) show ?thesis by blast
  qed
  have "\<forall>c \<in> set (map f ws). c \<noteq> []"
  proof
    fix c assume "c \<in> set (map f ws)"
    then obtain j where "j < length ws" "c = f (ws ! j)" by (auto simp: in_set_conv_nth)
    with ne show "c \<noteq> []" by simp
  qed
  then have a: "filter (\<lambda>c. c \<noteq> []) (map f ws) = map f ws" by (simp only: filter_id_conv)
  have b: "successively (shares_overlap n) (map f ws)"
    unfolding successively_conv_nth using assms(2,3) by simp
  from a b show ?thesis by (rule conjI)
qed

section \<open>Chunker: claims C4 and C5\<close>

text \<open>The loops' recursion equations are their code equations, for evaluating examples.\<close>

declare chunk_loop.simps [code]

declare window_loop.simps [code]

subsection \<open>Claim C4: chunks of a long text\<close>

text \<open>
  Claim C4 as stated: every text longer than \<open>chunk_size = 512\<close> yields at least two
  chunks, all non-empty, each adjacent pair sharing a non-empty overlap region of at
  most \<open>overlap = 50\<close> characters. It fails on texts with white space at a window
  boundary: the letter \<open>a\<close> followed by 512 spaces yields the single chunk \<open>a\<close> (the
  second window strips to the empty string and is dropped), and so does \<open>a\<close> followed by
  512 no-break spaces (code point 160); 462 times \<open>a\<close>, 50 spaces, 100 times \<open>b\<close> yields
  two chunks with nothing in common (the overlap region was stripped from both).
\<close>

theorem chunk_text_two_chunks_counterexample:
  "512 < length (CHR ''a'' # replicate 512 (CHR '' '')) \<and>
   \<not> (\<exists>chunks. chunk_text (CHR ''a'' # replicate 512 (CHR '' '')) 512 50 = Some chunks \<and>
          2 \<le> length chunks) \<and>
   512 < length (CHR ''a'' # replicate 512 (CHR 0xA0)) \<and>
   chunk_text (CHR ''a'' # replicate 512 (CHR 0xA0)) 512 50 = Some [''a''] \<and>
   512 < length (replicate 462 (CHR ''a'') @ replicate 50 (CHR '' '') @ replicate 100 (CHR ''b'')) \<and>
   \<not> (\<exists>chunks. chunk_text (replicate 462 (CHR ''a'') @ replicate 50 (CHR '' '') @
            replicate 100 (CHR ''b'')) 512 50 = Some chunks \<and>
          successively (shares_overlap 50) chunks)"
proof -
  have a: "chunk_text (CHR ''a'' # replicate 512 (CHR '' '')) 512 50 = Some [''a'']"
    by code_simp
  have a': "chunk_text (CHR ''a'' # replicate 512 (CHR 0xA0)) 512 50 = Some [''a'']"
    by code_simp
  have b: "chunk_text (replicate 462 (CHR ''a'') @ replicate 50 (CHR '' '') @
      replicate 100 (CHR ''b'')) 512 50 = Some [replicate 462 (CHR ''a''), replicate 100 (CHR ''b'')]"
    by code_simp
  have c: "\<not> shares_overlap 50 (replicate 462 (CHR ''a'')) (replicate 100 (CHR ''b''))"
    by (auto simp: shares_overlap_def)
  show ?thesis using c by (simp add: a a' b)
qed

text \<open>
  Claim C4 as amended. For every text longer than 512 characters, \<open>_chunk_text\<close> with
  the default \<open>chunk_size = 512\<close> and \<open>overlap = 50\<close> returns, and what it returns are the
  non-empty ones among the stripped windows \<open>text[start:end].strip()\<close> of its loop, in
  order; so every chunk is a non-empty string. The loop runs through at least two
  windows, and two consecutive windows share an overlap region of 1 to 50 characters,
  which ends the first and begins the second. Whenever that region holds a character
  that is not white space, the chunks of the two windows are both non-empty, adjacent
  in the result (which then has at least two chunks), and share a non-empty overlap of
  at most 50 characters. If every overlap region holds such a character, there is one
  chunk per window and each adjacent pair of chunks shares such an overlap; this is so
  for every text without white space. (A region of white space only is stripped from
  both chunks, and a window of white space only yields no chunk.)
\<close>

theorem chunk_text_chunks:
  assumes "512 < length text"
  shows "\<exists>ws chunks.
     chunk_windows text 512 50 = Some ws \<and> chunk_text text 512 50 = Some chunks \<and>
     chunks = filter (\<lambda>c. c \<noteq> []) (map (window_chunk text) ws) \<and>
     (\<forall>c \<in> set chunks. c \<noteq> []) \<and>
     2 \<le> length ws \<and>
     (\<forall>i. Suc i < length ws \<longrightarrow>
        overlap_region text (ws ! i) (ws ! Suc i) \<noteq> [] \<and>
        length (overlap_region text (ws ! i) (ws ! Suc i)) \<le> 50 \<and>
        (\<exists>P. py_slice text (fst (ws ! i)) (snd (ws ! i)) =
              P @ overlap_region text (ws ! i) (ws ! Suc i)) \<and>
        (\<exists>Q. py_slice text (fst (ws ! Suc i)) (snd (ws ! Suc i)) =
              overlap_region text (ws ! i) (ws ! Suc i) @ Q)) \<and>
     (\<forall>i. Suc i < length ws \<and> region_nonblank text (ws ! i) (ws ! Suc i) \<longrightarrow>
        shares_overlap 50 (window_chunk text (ws ! i)) (window_chunk text (ws ! Suc i)) \<and>
        (\<exists>pre post. chunks =
           pre @ window_chunk text (ws ! i) # window_chunk text (ws ! Suc i) # post)) \<and>
     ((\<forall>i. Suc i < length ws \<longrightarrow> region_nonblank text (ws ! i) (ws ! Suc i)) \<longrightarrow>
        length chunks = length ws \<and> successively (shares_overlap 50) chunks) \<and>
     ((\<forall>x \<in> set text. \<not> is_space x) \<longrightarrow>
        2 \<le> length chunks \<and> successively (shares_overlap 50) chunks)"
proof -
  have p: "(0::int) < 512" "(0::int) \<le> 50" "2 * (50::int) \<le> 512" "(0::int) \<le> 0"
    "(0::int) < 50" by simp_all
  have p5: "(0::int) < int (length text)" using assms by linarith
  have n50: "nat (50::int) = 50" by simp
  from loops_agree[OF p(1,2,3,4) p5, of "[]" "[]"] obtain ws where
    w: "window_loop text 512 50 0 [] = Some ([] @ ws)"
    and c: "chunk_loop text 512 50 0 [] =
        Some ([] @ filter (\<lambda>c. c \<noteq> []) (map (window_chunk text) ws))"
    and P1: "\<forall>w \<in> set ws. 0 \<le> fst w \<and> fst w < int (length text) \<and>
          snd w = window_end text 512 (fst w)"
    and P2: "successively (\<lambda>w w'. fst w' = snd w - 50) ws"
    and l2: "0 + 512 < int (length text) \<longrightarrow> 2 \<le> length ws"
    by blast
  define chunks where "chunks = filter (\<lambda>c. c \<noteq> []) (map (window_chunk text) ws)"
  have cw: "chunk_windows text 512 50 = Some ws" using w by (simp add: chunk_windows_def)
  have ct: "chunk_text text 512 50 = Some chunks"
    using c assms by (simp add: chunk_text_def chunks_def)
  have ne: "\<forall>c \<in> set chunks. c \<noteq> []" by (simp add: chunks_def)
  have two: "2 \<le> length ws" using l2 assms by simp
  note pair = windows_pair_nth[OF p(1) p(5) p(3) P1 P2, unfolded n50]
  have reg: "\<forall>i. Suc i < length ws \<longrightarrow>
        overlap_region text (ws ! i) (ws ! Suc i) \<noteq> [] \<and>
        length (overlap_region text (ws ! i) (ws ! Suc i)) \<le> 50 \<and>
        (\<exists>P. py_slice text (fst (ws ! i)) (snd (ws ! i)) =
              P @ overlap_region text (ws ! i) (ws ! Suc i)) \<and>
        (\<exists>Q. py_slice text (fst (ws ! Suc i)) (snd (ws ! Suc i)) =
              overlap_region text (ws ! i) (ws ! Suc i) @ Q)"
    using pair by blast
  have nb: "shares_overlap 50 (window_chunk text (ws ! i)) (window_chunk text (ws ! Suc i)) \<and>
      window_chunk text (ws ! i) \<noteq> [] \<and> window_chunk text (ws ! Suc i) \<noteq> []"
    if "Suc i < length ws" "region_nonblank text (ws ! i) (ws ! Suc i)" for i
    using pair[OF that(1)] that(2) by blast
  have loc: "\<forall>i. Suc i < length ws \<and> region_nonblank text (ws ! i) (ws ! Suc i) \<longrightarrow>
        shares_overlap 50 (window_chunk text (ws ! i)) (window_chunk text (ws ! Suc i)) \<and>
        (\<exists>pre post. chunks =
           pre @ window_chunk text (ws ! i) # window_chunk text (ws ! Suc i) # post)"
  proof (intro allI impI)
    fix i assume h: "Suc i < length ws \<and> region_nonblank text (ws ! i) (ws ! Suc i)"
    then have s: "Suc i < length ws" and r: "region_nonblank text (ws ! i) (ws ! Suc i)" by simp_all
    from nb[OF s r] have n1: "window_chunk text (ws ! i) \<noteq> []"
      and n2: "window_chunk text (ws ! Suc i) \<noteq> []"
      and so: "shares_overlap 50 (window_chunk text (ws ! i)) (window_chunk text (ws ! Suc i))"
      by simp_all
    from filter_map_adjacent[of i ws "window_chunk text", OF s n1 n2]
    have "\<exists>pre post. chunks =
           pre @ window_chunk text (ws ! i) # window_chunk text (ws ! Suc i) # post"
      unfolding chunks_def .
    with so show "shares_overlap 50 (window_chunk text (ws ! i)) (window_chunk text (ws ! Suc i)) \<and>
        (\<exists>pre post. chunks =
           pre @ window_chunk text (ws ! i) # window_chunk text (ws ! Suc i) # post)"
      by (rule conjI)
  qed
  have glob: "(\<forall>i. Suc i < length ws \<longrightarrow> region_nonblank text (ws ! i) (ws ! Suc i)) \<longrightarrow>
        length chunks = length ws \<and> successively (shares_overlap 50) chunks"
  proof
    assume a: "\<forall>i. Suc i < length ws \<longrightarrow> region_nonblank text (ws ! i) (ws ! Suc i)"
    from windows_all_nonblank[of ws "text" 50 "window_chunk text", OF two nb a]
    have "chunks = map (window_chunk text) ws"
      and "successively (shares_overlap 50) (map (window_chunk text) ws)"
      unfolding chunks_def by simp_all
    then show "length chunks = length ws \<and> successively (shares_overlap 50) chunks" by simp
  qed
  have nosp: "(\<forall>x \<in> set text. \<not> is_space x) \<longrightarrow>
        2 \<le> length chunks \<and> successively (shares_overlap 50) chunks"
  proof
    assume a: "\<forall>x \<in> set text. \<not> is_space x"
    have "\<forall>i. Suc i < length ws \<longrightarrow> region_nonblank text (ws ! i) (ws ! Suc i)"
    proof (intro allI impI)
      fix i assume s: "Suc i < length ws"
      with reg have "overlap_region text (ws ! i) (ws ! Suc i) \<noteq> []" by blast
      then obtain x where x: "x \<in> set (overlap_region text (ws ! i) (ws ! Suc i))"
        by (cases "overlap_region text (ws ! i) (ws ! Suc i)") auto
      then have "x \<in> set text"
        using set_py_slice[of "text" "fst (ws ! Suc i)" "snd (ws ! i)"]
        unfolding overlap_region_def by blast
      with a have "\<not> is_space x" by blast
      with x show "region_nonblank text (ws ! i) (ws ! Suc i)"
        unfolding region_nonblank_def by blast
    qed
    with glob two show "2 \<le> length chunks \<and> successively (shares_overlap 50) chunks" by simp
  qed
  from cw ct chunks_def ne two reg loc glob nosp show ?thesis by blast
qed

theorem chunk_text_chunks_witness:
  "512 < length (replicate 300 (CHR ''a'') @ CHR '' '' # replicate 300 (CHR ''b'')) \<and>
   chunk_windows (replicate 300 (CHR ''a'') @ CHR '' '' # replicate 300 (CHR ''b'')) 512 50 =
     Some [(0, 512), (462, 974)] \<and>
   region_nonblank (replicate 300 (CHR ''a'') @ CHR '' '' # replicate 300 (CHR ''b''))
     (0, 512) (462, 974) \<and>
   \<not> (\<forall>x \<in> set (replicate 300 (CHR ''a'') @ CHR '' '' # replicate 300 (CHR ''b'')). \<not> is_space x) \<and>
   chunk_text (replicate 300 (CHR ''a'') @ CHR '' '' # replicate 300 (CHR ''b'')) 512 50 =
     Some [replicate 300 (CHR ''a'') @ CHR '' '' # replicate 211 (CHR ''b''),
           replicate 139 (CHR ''b'')] \<and>
   (\<exists>chunks. chunk_text (replicate 300 (CHR ''a'') @ CHR '' '' # replicate 300 (CHR ''b'')) 512 50 =
        Some chunks \<and>
      length chunks = 2 \<and> successively (shares_overlap 50) chunks)"
proof -
  define T where "T = replicate 300 (CHR ''a'') @ CHR '' '' # replicate 300 (CHR ''b'')"
  have h: "512 < length T" by (simp add: T_def)
  have cw: "chunk_windows T 512 50 = Some [(0, 512), (462, 974)]"
    unfolding T_def by code_simp
  have rn: "region_nonblank T (0, 512) (462, 974)"
    unfolding T_def by code_simp
  have sp: "\<not> (\<forall>x \<in> set T. \<not> is_space x)"
    unfolding T_def by (simp add: is_space_def)
  have e: "chunk_text T 512 50 =
     Some [replicate 300 (CHR ''a'') @ CHR '' '' # replicate 211 (CHR ''b''),
           replicate 139 (CHR ''b'')]"
    unfolding T_def by code_simp
  from chunk_text_chunks[OF h] obtain ws chunks where
    a: "chunk_windows T 512 50 = Some ws" and b: "chunk_text T 512 50 = Some chunks"
    and g: "(\<forall>i. Suc i < length ws \<longrightarrow> region_nonblank T (ws ! i) (ws ! Suc i)) \<longrightarrow>
        length chunks = length ws \<and> successively (shares_overlap 50) chunks"
    by blast
  from a cw have ws: "ws = [(0, 512), (462, 974)]" by simp
  have "\<forall>i. Suc i < length ws \<longrightarrow> region_nonblank T (ws ! i) (ws ! Suc i)"
    unfolding ws using rn by simp
  with g have "length chunks = 2 \<and> successively (shares_overlap 50) chunks" unfolding ws by simp
  with b have ex: "\<exists>chunks. chunk_text T 512 50 = Some chunks \<and>
      length chunks = 2 \<and> successively (shares_overlap 50) chunks" by blast
  from h cw rn sp e ex show ?thesis unfolding T_def by (intro conjI)
qed

subsection \<open>Claim C5: the sentence-aware cut\<close>

text \<open>
  Claim C5 as stated: when the last sentence terminator of the tentative window lies at
  or past 50% of the window, the chunk is cut just after it. The code tests
  \<open>last_sentence_end > chunk_size * 0.5\<close>, strictly: with a full stop at index 256 of a 512
  character window (exactly 50%) and no later terminator, the cut is the hard boundary
  512, not 257.
\<close>

theorem window_end_half_counterexample:
  "0 + 512 < int (length (replicate 256 (CHR ''a'') @ CHR ''.'' # replicate 300 (CHR ''a''))) \<and>
   last_terminator
     (py_slice (replicate 256 (CHR ''a'') @ CHR ''.'' # replicate 300 (CHR ''a'')) 0 (0 + 512)) 256 \<and>
   (512 :: int) \<le> 2 * int 256 \<and>
   window_end (replicate 256 (CHR ''a'') @ CHR ''.'' # replicate 300 (CHR ''a'')) 512 0 = 0 + 512 \<and>
   window_end (replicate 256 (CHR ''a'') @ CHR ''.'' # replicate 300 (CHR ''a'')) 512 0 \<noteq>
     0 + int 256 + 1"
proof -
  define t where "t = replicate 256 (CHR ''a'') @ CHR ''.'' # replicate 300 (CHR ''a'')"
  have len: "0 + 512 < int (length t)" by (simp add: t_def)
  have w: "py_slice t 0 (0 + 512) = replicate 256 (CHR ''a'') @ CHR ''.'' # replicate 255 (CHR ''a'')"
    by (simp add: py_slice_nonneg t_def)
  have lt: "last_terminator (py_slice t 0 (0 + 512)) 256"
    unfolding w last_terminator_def by (auto simp: nth_append nth_Cons' is_terminator_def)
  from window_end_last_terminator[OF len lt] have "window_end t 512 0 = 0 + 512" by simp
  with len lt show ?thesis unfolding t_def by simp
qed

text \<open>
  Claim C5 as amended. For every window of the chunker whose tentative end
  \<open>start + chunk_size\<close> is interior to the text: if the last sentence terminator of the
  window \<open>text[start : start + chunk_size]\<close> lies strictly past 50% of the window (its
  index exceeds \<open>chunk_size / 2\<close>), the chunk is cut just after that terminator; if it lies
  at or before 50%, or the window holds no terminator, the chunk is cut at the hard
  boundary \<open>start + chunk_size\<close>. The loop emits the stripped text up to that cut (when it is
  not empty) and continues \<open>overlap\<close> characters before it.
\<close>

theorem window_end_sentence_rule:
  assumes "0 \<le> start" "0 < chunk_size" "start + chunk_size < int (length text)"
  shows "(\<forall>k. last_terminator (py_slice text start (start + chunk_size)) k \<longrightarrow>
            window_end text chunk_size start =
              (if chunk_size < 2 * int k then start + int k + 1 else start + chunk_size)) \<and>
         ((\<forall>x \<in> set (py_slice text start (start + chunk_size)). \<not> is_terminator x) \<longrightarrow>
            window_end text chunk_size start = start + chunk_size) \<and>
         chunk_loop text chunk_size overlap start chunks =
           (let e = window_end text chunk_size start;
                chunk = strip (py_slice text start e);
                chunks' = (if chunk \<noteq> [] then chunks @ [chunk] else chunks)
            in if int (length text) \<le> e - overlap then Some chunks'
               else chunk_loop text chunk_size overlap (e - overlap) chunks')"
proof -
  have lt: "start < int (length text)" using assms by linarith
  show ?thesis
    using assms window_end_last_terminator[OF assms(3)] window_end_no_terminator[OF assms(2)]
    by (simp add: chunk_loop_step[OF lt] Let_def)
qed

theorem window_end_sentence_rule_witness:
  "(0::int) \<le> 0 \<and> (0::int) < 10 \<and> 0 + 10 < int (length ''Pay now. Then rest.'') \<and>
   last_terminator (py_slice ''Pay now. Then rest.'' 0 (0 + 10)) 7 \<and>
   window_end ''Pay now. Then rest.'' 10 0 = 8 \<and>
   py_slice ''Pay now. Then rest.'' 0 8 = ''Pay now.''"
proof -
  have h: "(0::int) \<le> 0" "(0::int) < 10" "0 + 10 < int (length ''Pay now. Then rest.'')"
    by simp_all
  have w: "py_slice ''Pay now. Then rest.'' 0 (0 + 10) = ''Pay now. T''"
    by (simp add: py_slice_nonneg)
  have "last_terminator ''Pay now. T'' 7" by code_simp
  then have lt: "last_terminator (py_slice ''Pay now. Then rest.'' 0 (0 + 10)) 7"
    by (simp only: w)
  from window_end_sentence_rule[OF h, of 2 "[]"] lt
  have "window_end ''Pay now. Then rest.'' 10 0 = 8" by simp
  moreover have "py_slice ''Pay now. Then rest.'' 0 8 = ''Pay now.''"
    by (simp add: py_slice_nonneg)
  ultimately show ?thesis using h lt by simp
qed

section \<open>Hybrid fusion: lemmas and claim C6\<close>

lemma find_filter_imp:
  "(\<And>y. y \<in> set xs \<Longrightarrow> P y \<Longrightarrow> Q y) \<Longrightarrow> find P (filter Q xs) = find P xs"
  by (induction xs) auto

lemma first_per_chunk_subset: "set (first_per_chunk xs) \<subseteq> set xs"
  by (induction xs rule: first_per_chunk.induct) auto

lemma first_per_chunk_ids: "chunk_id ` set (first_per_chunk xs) = chunk_id ` set xs"
proof (induction xs rule: first_per_chunk.induct)
  case 1
  then show ?case by simp
next
  case (2 x xs)
  have "chunk_id ` set (first_per_chunk (x # xs)) =
        insert (chunk_id x) (chunk_id ` set (filter (\<lambda>y. chunk_id y \<noteq> chunk_id x) xs))"
    using 2 by simp
  also have "\<dots> = chunk_id ` set (x # xs)" by auto
  finally show ?case .
qed

lemma first_per_chunk_distinct: "distinct (map chunk_id (first_per_chunk xs))"
proof (induction xs rule: first_per_chunk.induct)
  case 1
  then show ?case by simp
next
  case (2 x xs)
  have "chunk_id x \<notin> chunk_id ` set (first_per_chunk (filter (\<lambda>y. chunk_id y \<noteq> chunk_id x) xs))"
    unfolding first_per_chunk_ids by auto
  with 2 show ?case by simp
qed

lemma first_per_chunk_find:
  "r \<in> set (first_per_chunk xs) \<Longrightarrow> find (\<lambda>y. chunk_id y = chunk_id r) xs = Some r"
proof (induction xs rule: first_per_chunk.induct)
  case 1
  then show ?case by simp
next
  case (2 x xs)
  show ?case
  proof (cases "r = x")
    case True
    then show ?thesis by simp
  next
    case False
    with 2(2) have r: "r \<in> set (first_per_chunk (filter (\<lambda>y. chunk_id y \<noteq> chunk_id x) xs))"
      by simp
    with first_per_chunk_subset have "r \<in> set (filter (\<lambda>y. chunk_id y \<noteq> chunk_id x) xs)"
      by blast
    then have ne: "chunk_id r \<noteq> chunk_id x" by simp
    have "find (\<lambda>y. chunk_id y = chunk_id r) (filter (\<lambda>y. chunk_id y \<noteq> chunk_id x) xs) =
          find (\<lambda>y. chunk_id y = chunk_id r) xs"
      by (rule find_filter_imp) (use ne in simp)
    with 2(1)[OF r] ne show ?thesis by auto
  qed
qed

lemma first_per_chunk_length: "length (first_per_chunk xs) = card (chunk_id ` set xs)"
proof -
  have "length (first_per_chunk xs) = length (map chunk_id (first_per_chunk xs))" by simp
  also have "\<dots> = card (set (map chunk_id (first_per_chunk xs)))"
    using first_per_chunk_distinct by (rule distinct_card[symmetric])
  also have "\<dots> = card (chunk_id ` set xs)" by (simp add: first_per_chunk_ids)
  finally show ?thesis .
qed

lemma add_semantic_merged:
  "snd (add_semantic xs seen acc) =
     acc @ first_per_chunk (filter (\<lambda>y. chunk_id y \<notin> set seen) xs)"
proof (induction xs seen acc rule: add_semantic.induct)
  case (1 seen acc)
  then show ?case by simp
next
  case (2 r rest seen acc)
  have f: "filter (\<lambda>y. chunk_id y \<notin> set (chunk_id r # seen)) rest =
           filter (\<lambda>y. chunk_id y \<noteq> chunk_id r) (filter (\<lambda>y. chunk_id y \<notin> set seen) rest)"
    by (induction rest) auto
  show ?case
  proof (cases "chunk_id r \<in> set seen")
    case True
    with 2 show ?thesis by simp
  next
    case False
    with 2 show ?thesis unfolding f by simp
  qed
qed

lemma add_semantic_seen:
  "set (fst (add_semantic xs seen acc)) = set seen \<union> chunk_id ` set xs"
proof (induction xs seen acc rule: add_semantic.induct)
  case (1 seen acc)
  then show ?case by simp
next
  case (2 r rest seen acc)
  show ?case
  proof (cases "chunk_id r \<in> set seen")
    case True
    with 2 show ?thesis by auto
  next
    case False
    with 2 show ?thesis by auto
  qed
qed

lemma add_keyword_merged:
  "snd (add_keyword fl xs seen acc) =
     acc @ map (\<lambda>k. k\<lparr>score := blend_score fl (score k)\<rparr>)
             (first_per_chunk (filter (\<lambda>y. chunk_id y \<notin> set seen) xs))"
proof (induction fl xs seen acc rule: add_keyword.induct)
  case (1 fl seen acc)
  then show ?case by simp
next
  case (2 fl r rest seen acc)
  have f: "filter (\<lambda>y. chunk_id y \<notin> set (chunk_id r # seen)) rest =
           filter (\<lambda>y. chunk_id y \<noteq> chunk_id r) (filter (\<lambda>y. chunk_id y \<notin> set seen) rest)"
    by (induction rest) auto
  show ?case
  proof (cases "chunk_id r \<in> set seen")
    case True
    with 2 show ?thesis by simp
  next
    case False
    with 2 show ?thesis unfolding f by simp
  qed
qed

lemma merge_results_candidates:
  "merge_results fl S K m = py_take (sort_by_score_desc (fused_candidates fl S K)) m"
proof -
  have "merge_results fl S K m =
        py_take (sort_by_score_desc
          (snd (add_keyword fl K (fst (add_semantic S [] [])) (snd (add_semantic S [] []))))) m"
    by (simp add: merge_results_def case_prod_beta)
  then show ?thesis
    by (simp add: add_keyword_merged add_semantic_merged add_semantic_seen fused_candidates_def)
qed

lemma fused_candidates_ids:
  "chunk_id ` set (fused_candidates fl S K) = chunk_id ` (set S \<union> set K)"
proof -
  have "chunk_id ` set (fused_candidates fl S K) =
        chunk_id ` set (first_per_chunk S) \<union>
        chunk_id ` set (first_per_chunk (filter (\<lambda>k. chunk_id k \<notin> chunk_id ` set S) K))"
    by (simp add: fused_candidates_def image_Un image_image)
  also have "\<dots> = chunk_id ` set S \<union> chunk_id ` set (filter (\<lambda>k. chunk_id k \<notin> chunk_id ` set S) K)"
    by (simp only: first_per_chunk_ids)
  also have "\<dots> = chunk_id ` (set S \<union> set K)" by auto
  finally show ?thesis .
qed

lemma fused_candidates_distinct: "distinct (map chunk_id (fused_candidates fl S K))"
proof -
  let ?K' = "filter (\<lambda>k. chunk_id k \<notin> chunk_id ` set S) K"
  have m: "map chunk_id (fused_candidates fl S K) =
           map chunk_id (first_per_chunk S) @ map chunk_id (first_per_chunk ?K')"
    by (simp add: fused_candidates_def comp_def)
  have "chunk_id ` set (first_per_chunk S) \<inter> chunk_id ` set (first_per_chunk ?K') = {}"
    unfolding first_per_chunk_ids by (auto simp: image_iff)
  then show ?thesis unfolding m by (simp add: first_per_chunk_distinct)
qed

lemma fused_candidates_length:
  "length (fused_candidates fl S K) = card (chunk_id ` (set S \<union> set K))"
proof -
  have "length (fused_candidates fl S K) = length (map chunk_id (fused_candidates fl S K))" by simp
  also have "\<dots> = card (set (map chunk_id (fused_candidates fl S K)))"
    using fused_candidates_distinct by (rule distinct_card[symmetric])
  also have "\<dots> = card (chunk_id ` (set S \<union> set K))" by (simp add: fused_candidates_ids)
  finally show ?thesis .
qed

lemma fused_candidates_semantic:
  assumes "r \<in> set (fused_candidates fl S K)" "chunk_id r \<in> chunk_id ` set S"
  shows "find (\<lambda>s. chunk_id s = chunk_id r) S = Some r"
proof -
  let ?K' = "filter (\<lambda>k. chunk_id k \<notin> chunk_id ` set S) K"
  have "r \<notin> (\<lambda>k. k\<lparr>score := blend_score fl (score k)\<rparr>) ` set (first_per_chunk ?K')"
  proof
    assume "r \<in> (\<lambda>k. k\<lparr>score := blend_score fl (score k)\<rparr>) ` set (first_per_chunk ?K')"
    then obtain k where k: "k \<in> set (first_per_chunk ?K')" "chunk_id r = chunk_id k" by auto
    with first_per_chunk_subset have "k \<in> set ?K'" by blast
    with k assms(2) show False by simp
  qed
  with assms(1) have "r \<in> set (first_per_chunk S)" by (auto simp: fused_candidates_def)
  then show ?thesis by (rule first_per_chunk_find)
qed

lemma fused_candidates_keyword:
  assumes "r \<in> set (fused_candidates fl S K)" "chunk_id r \<notin> chunk_id ` set S"
  shows "\<exists>k. find (\<lambda>k. chunk_id k = chunk_id r) K = Some k \<and>
             r = k\<lparr>score := blend_score fl (score k)\<rparr>"
proof -
  let ?K' = "filter (\<lambda>k. chunk_id k \<notin> chunk_id ` set S) K"
  have "r \<notin> set (first_per_chunk S)"
    using assms(2) first_per_chunk_subset by blast
  with assms(1) obtain k where k: "k \<in> set (first_per_chunk ?K')"
    "r = k\<lparr>score := blend_score fl (score k)\<rparr>" by (auto simp: fused_candidates_def)
  have id: "chunk_id r = chunk_id k" using k(2) by simp
  have "find (\<lambda>y. chunk_id y = chunk_id k) ?K' = Some k"
    using k(1) by (rule first_per_chunk_find)
  moreover have "find (\<lambda>y. chunk_id y = chunk_id k) ?K' = find (\<lambda>y. chunk_id y = chunk_id k) K"
    by (rule find_filter_imp) (use assms(2) id in simp)
  ultimately have "find (\<lambda>y. chunk_id y = chunk_id r) K = Some k" unfolding id by simp
  with k(2) show ?thesis by blast
qed

lemma py_take_eq: "py_take xs k = take (nat (slice_bound k (int (length xs)))) xs"
  by (simp add: py_take_def py_slice_def slice_bound_def Let_def)

lemma py_take_nonneg: "0 \<le> k \<Longrightarrow> py_take xs k = take (nat k) xs"
  by (simp add: py_take_eq slice_bound_def min_def)

lemma length_py_take: "0 \<le> k \<Longrightarrow> int (length (py_take xs k)) \<le> k"
  by (simp add: py_take_eq slice_bound_def)

lemma sorted_desc: "sorted_wrt (\<lambda>a b. score b \<le> score a) (sort_by_score_desc rs)"
proof -
  have "sorted (map (\<lambda>r. - score r) (sort_by_score_desc rs))"
    unfolding sort_by_score_desc_def by (rule sorted_sort_key)
  then show ?thesis by (simp add: sorted_map sorted_wrt_iff_nth_less)
qed

lemma sort_by_score_desc_set: "set (sort_by_score_desc rs) = set rs"
  by (simp add: sort_by_score_desc_def)

lemma sort_by_score_desc_length: "length (sort_by_score_desc rs) = length rs"
  by (simp add: sort_by_score_desc_def)

lemma sort_by_score_desc_distinct:
  "distinct (map chunk_id rs) \<Longrightarrow> distinct (map chunk_id (sort_by_score_desc rs))"
  unfolding sort_by_score_desc_def by (metis distinct_map distinct_sort set_sort)

lemma sort_by_score_desc_stable:
  "filter (\<lambda>r. score r = v) (sort_by_score_desc rs) = filter (\<lambda>r. score r = v) rs"
proof -
  have "filter (\<lambda>r. - score r = - v) (sort_key (\<lambda>r. - score r) rs) =
        filter (\<lambda>r. - score r = - v) rs"
    by (rule sort_key_stable)
  then show ?thesis by (simp add: sort_by_score_desc_def)
qed

lemma first_per_chunk_length_le: "length (first_per_chunk xs) \<le> length xs"
proof (induction xs rule: first_per_chunk.induct)
  case 1
  then show ?case by simp
next
  case (2 x xs)
  have "length (filter (\<lambda>y. chunk_id y \<noteq> chunk_id x) xs) \<le> length xs" by (rule length_filter_le)
  with 2 have "length (first_per_chunk (filter (\<lambda>y. chunk_id y \<noteq> chunk_id x) xs)) \<le> length xs"
    by (rule order_trans)
  then show ?case by simp
qed

lemma fused_candidates_length_le: "length (fused_candidates fl S K) \<le> length S + length K"
proof -
  let ?K' = "filter (\<lambda>k. chunk_id k \<notin> chunk_id ` set S) K"
  have "length (fused_candidates fl S K) = length (first_per_chunk S) + length (first_per_chunk ?K')"
    by (simp add: fused_candidates_def)
  moreover have "length (first_per_chunk S) \<le> length S" by (rule first_per_chunk_length_le)
  moreover have "length (first_per_chunk ?K') \<le> length ?K'" by (rule first_per_chunk_length_le)
  moreover have "length ?K' \<le> length K" by (rule length_filter_le)
  ultimately show ?thesis by linarith
qed

lemma merge_results_untruncated:
  "merge_results fl S K (int (length S + length K)) = sort_by_score_desc (fused_candidates fl S K)"
  using fused_candidates_length_le[of fl S K]
  by (simp add: merge_results_candidates py_take_nonneg sort_by_score_desc_length)

lemma sorted_desc_take_drop:
  assumes "sorted_wrt (\<lambda>a b. score b \<le> score a) xs" "x \<in> set xs" "x \<notin> set (take n xs)"
    "r \<in> set (take n xs)"
  shows "score x \<le> score r"
proof -
  from assms(2,3) have "x \<in> set (drop n xs)" by (metis Un_iff append_take_drop_id set_append)
  moreover from assms(1) have "sorted_wrt (\<lambda>a b. score b \<le> score a) (take n xs @ drop n xs)" by simp
  ultimately show ?thesis using assms(4) unfolding sorted_wrt_append by blast
qed

text \<open>
  Claim C6 (hybrid fusion). For all semantic results \<open>S\<close>, keyword results \<open>K\<close> and
  \<open>max_results\<close> \<open>m\<close>, whatever the rounding \<open>fl\<close> of the float operations:
  the merged list holds no chunk id twice; an entry whose chunk id occurs in \<open>S\<close> is the
  first entry of \<open>S\<close> with that chunk id, unchanged (so it keeps its score); every other
  entry is the first keyword result with its chunk id, its score replaced by the value of
  \<open>0.8 * score + 0.2\<close> (the product rounded, then the sum; exactly that number where \<open>fl\<close>
  is the identity); the list is in descending score order; it has at most \<open>m\<close> entries, and
  exactly as many as \<open>m\<close> and the number of chunk ids in \<open>S\<close> and \<open>K\<close> allow; it is the
  first \<open>m\<close> entries of the merge that a bound cuts nothing from, which holds every chunk id
  of \<open>S\<close> and of \<open>K\<close>, so that an entry left out has a score no higher than any entry kept
  (these for the non-negative \<open>m\<close> that a request carries); and the merge is the stable
  descending sort of the deduplicated semantic hits followed by the deduplicated, rescored
  keyword-only hits, cut as \<open>[:m]\<close> cuts.
\<close>

theorem merge_results_fusion:
  "distinct (map chunk_id (merge_results fl S K m)) \<and>
   (\<forall>r \<in> set (merge_results fl S K m). chunk_id r \<in> chunk_id ` set S \<longrightarrow>
      r \<in> set S \<and> find (\<lambda>s. chunk_id s = chunk_id r) S = Some r) \<and>
   (\<forall>r \<in> set (merge_results fl S K m). chunk_id r \<notin> chunk_id ` set S \<longrightarrow>
      (\<exists>k \<in> set K. chunk_id k = chunk_id r \<and>
         find (\<lambda>k. chunk_id k = chunk_id r) K = Some k \<and>
         r = k\<lparr>score := fl (fl (fl 0.8 * score k) + fl 0.2)\<rparr>)) \<and>
   sorted_wrt (\<lambda>a b. score b \<le> score a) (merge_results fl S K m) \<and>
   (0 \<le> m \<longrightarrow> int (length (merge_results fl S K m)) \<le> m) \<and>
   (0 \<le> m \<longrightarrow>
      length (merge_results fl S K m) = min (nat m) (card (chunk_id ` (set S \<union> set K)))) \<and>
   (0 \<le> m \<longrightarrow>
      merge_results fl S K m = take (nat m) (merge_results fl S K (int (length S + length K)))) \<and>
   chunk_id ` set (merge_results fl S K (int (length S + length K))) = chunk_id ` (set S \<union> set K) \<and>
   (0 \<le> m \<longrightarrow>
      (\<forall>x \<in> set (merge_results fl S K (int (length S + length K))).
         x \<notin> set (merge_results fl S K m) \<longrightarrow>
         (\<forall>r \<in> set (merge_results fl S K m). score x \<le> score r))) \<and>
   merge_results fl S K m = py_take (sort_by_score_desc (fused_candidates fl S K)) m"
proof -
  define C where "C = fused_candidates fl S K"
  define L where "L = sort_by_score_desc C"
  define n where "n = nat (slice_bound m (int (length L)))"
  have M: "merge_results fl S K m = take n L"
    by (simp add: merge_results_candidates py_take_eq n_def L_def C_def)
  have F: "merge_results fl S K (int (length S + length K)) = L"
    unfolding L_def C_def by (rule merge_results_untruncated)
  have setL: "set L = set C" by (simp add: L_def sort_by_score_desc_set)
  have lenL: "length L = card (chunk_id ` (set S \<union> set K))"
    by (simp add: L_def C_def sort_by_score_desc_length fused_candidates_length)
  have dL: "distinct (map chunk_id L)"
    unfolding L_def C_def by (rule sort_by_score_desc_distinct) (rule fused_candidates_distinct)
  have sL: "sorted_wrt (\<lambda>a b. score b \<le> score a) L" unfolding L_def by (rule sorted_desc)
  have sub: "set (take n L) \<subseteq> set C" using set_take_subset[of n L] setL by simp
  have nm: "0 \<le> m \<Longrightarrow> take n L = take (nat m) L"
    by (simp add: n_def slice_bound_def min_def)
  have c1: "distinct (map chunk_id (merge_results fl S K m))"
    unfolding M using dL by (simp add: take_map[symmetric] del: take_map)
  have c2: "\<forall>r \<in> set (merge_results fl S K m). chunk_id r \<in> chunk_id ` set S \<longrightarrow>
      r \<in> set S \<and> find (\<lambda>s. chunk_id s = chunk_id r) S = Some r"
  proof (intro ballI impI)
    fix r assume r: "r \<in> set (merge_results fl S K m)" and i: "chunk_id r \<in> chunk_id ` set S"
    from r sub have "r \<in> set (fused_candidates fl S K)" unfolding M C_def by blast
    then have f: "find (\<lambda>s. chunk_id s = chunk_id r) S = Some r"
      using i by (rule fused_candidates_semantic)
    then have "r \<in> set S" by (auto simp: find_Some_iff)
    with f show "r \<in> set S \<and> find (\<lambda>s. chunk_id s = chunk_id r) S = Some r" by simp
  qed
  have c3: "\<forall>r \<in> set (merge_results fl S K m). chunk_id r \<notin> chunk_id ` set S \<longrightarrow>
      (\<exists>k \<in> set K. chunk_id k = chunk_id r \<and>
         find (\<lambda>k. chunk_id k = chunk_id r) K = Some k \<and>
         r = k\<lparr>score := fl (fl (fl 0.8 * score k) + fl 0.2)\<rparr>)"
  proof (intro ballI impI)
    fix r assume r: "r \<in> set (merge_results fl S K m)" and i: "chunk_id r \<notin> chunk_id ` set S"
    from r sub have "r \<in> set (fused_candidates fl S K)" unfolding M C_def by blast
    from fused_candidates_keyword[OF this i] obtain k where
      k: "find (\<lambda>k. chunk_id k = chunk_id r) K = Some k" "r = k\<lparr>score := blend_score fl (score k)\<rparr>"
      by blast
    from k(1) have kin: "k \<in> set K" and kid: "chunk_id k = chunk_id r"
      by (auto simp: find_Some_iff)
    have "r = k\<lparr>score := fl (fl (fl 0.8 * score k) + fl 0.2)\<rparr>"
      using k(2) by (simp add: blend_score_def mult.commute)
    with kin kid k(1) show "\<exists>k \<in> set K. chunk_id k = chunk_id r \<and>
         find (\<lambda>k. chunk_id k = chunk_id r) K = Some k \<and>
         r = k\<lparr>score := fl (fl (fl 0.8 * score k) + fl 0.2)\<rparr>" by blast
  qed
  have c4: "sorted_wrt (\<lambda>a b. score b \<le> score a) (merge_results fl S K m)"
    unfolding M using sL by (rule sorted_wrt_take)
  have c5: "0 \<le> m \<longrightarrow> int (length (merge_results fl S K m)) \<le> m"
    using nm unfolding M by auto
  have c6: "0 \<le> m \<longrightarrow>
      length (merge_results fl S K m) = min (nat m) (card (chunk_id ` (set S \<union> set K)))"
    using nm lenL unfolding M by auto
  have c7: "0 \<le> m \<longrightarrow>
      merge_results fl S K m = take (nat m) (merge_results fl S K (int (length S + length K)))"
    using nm unfolding F M by simp
  have c8: "chunk_id ` set (merge_results fl S K (int (length S + length K))) =
      chunk_id ` (set S \<union> set K)"
    unfolding F setL C_def by (rule fused_candidates_ids)
  have c9: "0 \<le> m \<longrightarrow>
      (\<forall>x \<in> set (merge_results fl S K (int (length S + length K))).
         x \<notin> set (merge_results fl S K m) \<longrightarrow>
         (\<forall>r \<in> set (merge_results fl S K m). score x \<le> score r))"
    unfolding F M using sorted_desc_take_drop[OF sL] by blast
  have c10: "merge_results fl S K m = py_take (sort_by_score_desc (fused_candidates fl S K)) m"
    by (rule merge_results_candidates)
  from c1 c2 c3 c4 c5 c6 c7 c8 c9 c10 show ?thesis by (intro conjI)
qed

theorem merge_results_fusion_witness:
  "(0::int) \<le> 2 \<and>
   merge_results (\<lambda>x. x) sample_semantic sample_keyword 2 =
     [sample_result ''D3'' ''c'' 1, sample_result ''D1'' ''a'' 0.75] \<and>
   merge_results (\<lambda>x. x) sample_semantic sample_keyword (int (length sample_semantic + length sample_keyword)) =
     [sample_result ''D3'' ''c'' 1, sample_result ''D1'' ''a'' 0.75, sample_result ''D2'' ''b'' 0.25] \<and>
   chunk_id (sample_result ''D1'' ''a'' 0.75) \<in> chunk_id ` set sample_semantic \<and>
   find (\<lambda>s. chunk_id s = chunk_id (sample_result ''D1'' ''a'' 0.75)) sample_semantic =
     Some (sample_result ''D1'' ''a'' 0.75) \<and>
   chunk_id (sample_result ''D3'' ''c'' 1) \<notin> chunk_id ` set sample_semantic \<and>
   sample_result ''D3'' ''c'' 1 = (sample_result ''D3'' ''c'' 1)\<lparr>score := 0.8 * 1 + 0.2\<rparr> \<and>
   sample_result ''D2'' ''b'' 0.25 \<notin> set (merge_results (\<lambda>x. x) sample_semantic sample_keyword 2) \<and>
   distinct (map chunk_id (merge_results (\<lambda>x. x) sample_semantic sample_keyword 2)) \<and>
   length (merge_results (\<lambda>x. x) sample_semantic sample_keyword 2) =
     min (nat 2) (card (chunk_id ` (set sample_semantic \<union> set sample_keyword)))"
proof -
  note defs = merge_results_def sample_semantic_def sample_keyword_def sample_result_def
    sort_by_score_desc_def py_take_def py_slice_def slice_bound_def blend_score_def
  note T = merge_results_fusion [of "\<lambda>x. x" sample_semantic sample_keyword 2]
  have e2: "merge_results (\<lambda>x. x) sample_semantic sample_keyword 2 =
     [sample_result ''D3'' ''c'' 1, sample_result ''D1'' ''a'' 0.75]"
    by (simp add: defs)
  have e5: "merge_results (\<lambda>x. x) sample_semantic sample_keyword
       (int (length sample_semantic + length sample_keyword)) =
     [sample_result ''D3'' ''c'' 1, sample_result ''D1'' ''a'' 0.75, sample_result ''D2'' ''b'' 0.25]"
    by (simp add: defs)
  have i1: "chunk_id (sample_result ''D1'' ''a'' 0.75) \<in> chunk_id ` set sample_semantic"
    by (simp add: sample_semantic_def sample_result_def)
  have f1: "find (\<lambda>s. chunk_id s = chunk_id (sample_result ''D1'' ''a'' 0.75)) sample_semantic =
     Some (sample_result ''D1'' ''a'' 0.75)"
    using T i1 unfolding e2 by simp
  have i3: "chunk_id (sample_result ''D3'' ''c'' 1) \<notin> chunk_id ` set sample_semantic"
    by (simp add: sample_semantic_def sample_result_def)
  have s3: "sample_result ''D3'' ''c'' 1 = (sample_result ''D3'' ''c'' 1)\<lparr>score := 0.8 * 1 + 0.2\<rparr>"
    by (simp add: sample_result_def)
  have n2: "sample_result ''D2'' ''b'' 0.25 \<notin> set (merge_results (\<lambda>x. x) sample_semantic sample_keyword 2)"
    unfolding e2 by (simp add: sample_result_def)
  have z: "(0::int) \<le> 2" by simp
  from T have d: "distinct (map chunk_id (merge_results (\<lambda>x. x) sample_semantic sample_keyword 2))"
    by (rule conjunct1)
  from T z have l: "length (merge_results (\<lambda>x. x) sample_semantic sample_keyword 2) =
     min (nat 2) (card (chunk_id ` (set sample_semantic \<union> set sample_keyword)))"
    by blast
  from z e2 e5 i1 f1 i3 s3 n2 d l show ?thesis by (intro conjI)
qed

section \<open>Filter evaluator: lemmas\<close>

lemma match_loop_all_pass:
  "(match_loop md fs = Inr True) = (\<forall>(k, v) \<in> set fs. filter_passes md k v = Inr True)"
proof (induction fs)
  case Nil
  then show ?case by simp
next
  case (Cons kv fs)
  obtain k v where kv: "kv = (k, v)" by (cases kv)
  show ?case
  proof (cases "filter_passes md k v")
    case (Inl e)
    then show ?thesis by (simp add: kv)
  next
    case (Inr b)
    with Cons.IH show ?thesis by (cases b) (simp_all add: kv)
  qed
qed

lemma match_filters_all_pass:
  "match_filters md fs = (\<forall>(k, v) \<in> set fs. filter_passes md k v = Inr True)"
proof -
  have "match_filters md fs = (match_loop md fs = Inr True)"
    by (cases "match_loop md fs") (auto simp: match_filters_def)
  also have "\<dots> = (\<forall>(k, v) \<in> set fs. filter_passes md k v = Inr True)"
    by (rule match_loop_all_pass)
  finally show ?thesis .
qed

lemma filter_passes_membership:
  assumes "k \<in> membership_keys"
  shows "filter_passes md k (PList ys) = Inr (list_ex (py_eq (membership_field md k)) ys)"
  using assms by (auto simp: membership_keys_def filter_passes_def membership_field_def)

lemma list_ex_None: "list_ex (py_eq PNone) ys = (PNone \<in> set ys)"
  by (induction ys) auto


section \<open>Filter evaluator: claims C8 and C10\<close>

text \<open>
  Claim C8 as stated: with membership filters only, \<open>_match_filters\<close> returns \<open>True\<close> iff
  every supplied key's field value is a member of the supplied list, and a chunk lacking
  the field fails that key. The second part fails when the supplied list itself holds
  \<open>None\<close>: the lookup \<open>metadata.get("project_id")\<close> of a chunk without that field is
  \<open>None\<close>, which is a member of \<open>[None]\<close>, so the chunk passes.
\<close>

theorem match_filters_missing_field_counterexample:
  "map_of (metadata (sample_chunk [])) ''project_id'' = None \<and>
   match_filters (sample_chunk []) [(''project_ids'', PList [PNone])] = True"
  by (simp add: match_filters_def filter_passes_def sample_chunk_def dict_get_def)

text \<open>
  Claim C8 as amended. For every Chunk Store entry and every filter set whose keys are
  among \<open>project_ids\<close>, \<open>contractors\<close>, \<open>statuses\<close>, \<open>document_types\<close>, \<open>categories\<close> and whose
  values are lists, \<open>_match_filters\<close> returns \<open>True\<close> iff for each supplied key the chunk's
  corresponding field value is a member of the supplied list, all keys combined
  conjunctively. A chunk lacking the field is read as having the value \<open>None\<close>: it fails
  that key unless \<open>None\<close> is itself in the supplied list.
\<close>

theorem match_filters_membership:
  assumes "\<forall>(k, v) \<in> set filters. k \<in> membership_keys \<and> (\<exists>ys. v = PList ys)"
  shows "(match_filters md filters =
           (\<forall>(k, v) \<in> set filters. \<exists>ys. v = PList ys \<and> list_ex (py_eq (membership_field md k)) ys)) \<and>
         (\<forall>(k, v) \<in> set filters. \<forall>ys. v = PList ys \<and> membership_field md k = PNone \<and>
           PNone \<notin> set ys \<longrightarrow> \<not> match_filters md filters)"
proof -
  have eq: "(filter_passes md k v = Inr True) =
            (\<exists>ys. v = PList ys \<and> list_ex (py_eq (membership_field md k)) ys)"
    if "(k, v) \<in> set filters" for k v
  proof -
    from assms that obtain ys where "k \<in> membership_keys" "v = PList ys" by blast
    then show ?thesis by (simp add: filter_passes_membership)
  qed
  have main: "match_filters md filters =
           (\<forall>(k, v) \<in> set filters. \<exists>ys. v = PList ys \<and> list_ex (py_eq (membership_field md k)) ys)"
    unfolding match_filters_all_pass using eq by blast
  have "\<forall>(k, v) \<in> set filters. \<forall>ys. v = PList ys \<and> membership_field md k = PNone \<and>
           PNone \<notin> set ys \<longrightarrow> \<not> match_filters md filters"
  proof (intro ballI, clarify)
    fix k ys
    assume m: "(k, PList ys) \<in> set filters" "membership_field md k = PNone" "PNone \<notin> set ys"
      "match_filters md filters"
    from m(4) main m(1) have "list_ex (py_eq (membership_field md k)) ys" by blast
    with m(2,3) show False by (simp add: list_ex_None)
  qed
  with main show ?thesis by blast
qed

theorem match_filters_membership_witness:
  "match_filters (sample_chunk [(''project_id'', PStr ''P1'')])
     [(''project_ids'', PList [PStr ''P1'', PStr ''P3'']), (''document_types'', PList [PStr ''contract''])] \<and>
   \<not> match_filters (sample_chunk [(''project_id'', PStr ''P2'')])
     [(''project_ids'', PList [PStr ''P1'', PStr ''P3'']), (''document_types'', PList [PStr ''contract''])] \<and>
   membership_field (sample_chunk []) ''project_ids'' = PNone \<and>
   \<not> match_filters (sample_chunk [])
     [(''project_ids'', PList [PStr ''P1'', PStr ''P3'']), (''document_types'', PList [PStr ''contract''])]"
proof -
  let ?fs = "[(''project_ids'', PList [PStr ''P1'', PStr ''P3'']), (''document_types'', PList [PStr ''contract''])]"
  have h: "\<forall>(k, v) \<in> set ?fs. k \<in> membership_keys \<and> (\<exists>ys. v = PList ys)"
    by (simp add: membership_keys_def)
  have a: "match_filters (sample_chunk [(''project_id'', PStr ''P1'')]) ?fs"
    using match_filters_membership[OF h, of "sample_chunk [(''project_id'', PStr ''P1'')]"]
    by (simp add: membership_field_def sample_chunk_def dict_get_def of_opt_str_def)
  have b: "\<not> match_filters (sample_chunk [(''project_id'', PStr ''P2'')]) ?fs"
    using match_filters_membership[OF h, of "sample_chunk [(''project_id'', PStr ''P2'')]"]
    by (simp add: membership_field_def sample_chunk_def dict_get_def of_opt_str_def)
  have c: "membership_field (sample_chunk []) ''project_ids'' = PNone"
    by (simp add: membership_field_def sample_chunk_def dict_get_def)
  have d: "\<not> match_filters (sample_chunk []) ?fs"
    using match_filters_membership[OF h, of "sample_chunk []"] c by simp
  from a b c d show ?thesis by simp
qed

text \<open>
  Claim C10. \<open>_match_filters\<close> always returns a truth value, and if the evaluation of any
  supplied filter item raises (a confidence that cannot be compared with the threshold,
  a \<open>date_range\<close> that is not a mapping, a membership value that is not a container) the
  result is \<open>False\<close>: the entry is excluded, nothing propagates.
\<close>

theorem match_filters_raise_is_false:
  assumes "(k, v) \<in> set filters" "filter_passes md k v = Inl e"
  shows "match_filters md filters = False"
proof -
  from assms(2) have "filter_passes md k v \<noteq> Inr True" by simp
  with assms(1) have "\<not> (\<forall>(k, v) \<in> set filters. filter_passes md k v = Inr True)" by blast
  then show ?thesis by (simp only: match_filters_all_pass)
qed

theorem match_filters_raise_is_false_witness:
  "(''confidence_min'', PFloat 0.5) \<in> set [(''project_ids'', PList [PStr ''P1'']), (''confidence_min'', PFloat 0.5)] \<and>
   filter_passes (sample_chunk [(''project_id'', PStr ''P1''), (''confidence'', PStr ''high'')])
     ''confidence_min'' (PFloat 0.5) = Inl TypeError \<and>
   match_filters (sample_chunk [(''project_id'', PStr ''P1''), (''confidence'', PStr ''high'')])
     [(''project_ids'', PList [PStr ''P1'']), (''confidence_min'', PFloat 0.5)] = False \<and>
   filter_passes (sample_chunk []) ''date_range'' (PInt 5) = Inl TypeError \<and>
   match_filters (sample_chunk []) [(''date_range'', PInt 5)] = False"
proof -
  have m: "(''confidence_min'', PFloat 0.5) \<in> set [(''project_ids'', PList [PStr ''P1'']), (''confidence_min'', PFloat 0.5)]"
    by simp
  have r: "filter_passes (sample_chunk [(''project_id'', PStr ''P1''), (''confidence'', PStr ''high'')])
     ''confidence_min'' (PFloat 0.5) = Inl TypeError"
    by (simp add: filter_passes_def sample_chunk_def dict_get_def)
  have m2: "(''date_range'', PInt 5) \<in> set [(''date_range'', PInt 5)]" by simp
  have r2: "filter_passes (sample_chunk []) ''date_range'' (PInt 5) = Inl TypeError"
    by (simp add: filter_passes_def date_range_passes_def sample_chunk_def)
  from match_filters_raise_is_false[OF m r] match_filters_raise_is_false[OF m2 r2] m r r2
  show ?thesis by simp
qed

section \<open>Indexer: lemmas\<close>

lemma embed_texts_ok:
  "embed_texts encode ts = Inr vs \<Longrightarrow>
   length vs = length ts \<and> (\<forall>i<length ts. encode (ts ! i) = Inr (vs ! i))"
proof (induction ts arbitrary: vs)
  case Nil
  then show ?case by simp
next
  case (Cons t ts)
  from Cons.prems obtain v vs' where v: "encode t = Inr v" "embed_texts encode ts = Inr vs'"
    "vs = v # vs'" by (auto split: sum.splits)
  from Cons.IH[OF v(2)] have ih: "length vs' = length ts" "\<forall>i<length ts. encode (ts ! i) = Inr (vs' ! i)"
    by auto
  have "\<forall>i<length (t # ts). encode ((t # ts) ! i) = Inr (vs ! i)"
  proof (intro allI impI)
    fix i assume "i < length (t # ts)"
    then show "encode ((t # ts) ! i) = Inr (vs ! i)"
      using v(1,3) ih(2) by (cases i) auto
  qed
  with ih(1) v(3) show ?case by simp
qed

lemma map_of_store_entries:
  "map_of (store_entries st i ms) p =
     (if i \<le> p \<and> p < i + length ms then Some (ms ! (p - i)) else map_of st p)"
proof (induction ms arbitrary: st i)
  case Nil
  then show ?case by auto
next
  case (Cons m ms)
  have ih: "map_of (store_entries (AList.update i m st) (Suc i) ms) p =
     (if Suc i \<le> p \<and> p < Suc i + length ms then Some (ms ! (p - Suc i))
      else map_of (AList.update i m st) p)" by (rule Cons.IH)
  show ?case
  proof (cases "p = i")
    case True
    with ih show ?thesis by (simp add: update_conv')
  next
    case False
    with ih show ?thesis by (auto simp: update_conv' Suc_diff_le nth_Cons')
  qed
qed

lemma distinct_store_entries:
  "distinct (map fst st) \<Longrightarrow> distinct (map fst (store_entries st i ms))"
  by (induction ms arbitrary: st i) (simp_all add: distinct_update)

lemma map_of_remove_entries:
  "remove_entries st c ks = (st', c') \<Longrightarrow>
   map_of st' p = None \<or> map_of st' p = map_of st p"
proof (induction ks arbitrary: st c)
  case Nil
  then show ?case by simp
next
  case (Cons k ks)
  show ?case
  proof (cases "k \<in> fst ` set st")
    case True
    with Cons.prems have "remove_entries (AList.delete k st) (c + 1) ks = (st', c')" by simp
    from Cons.IH[OF this] show ?thesis by (auto simp: delete_conv')
  next
    case False
    with Cons.prems have "remove_entries st c ks = (st', c')" by simp
    from Cons.IH[OF this] show ?thesis .
  qed
qed

lemma remove_entries_filter:
  "distinct ks \<Longrightarrow> set ks \<subseteq> fst ` set st \<Longrightarrow>
   remove_entries st c ks = (filter (\<lambda>(k, m). k \<notin> set ks) st, c + length ks)"
proof (induction ks arbitrary: st c)
  case Nil
  then show ?case by simp
next
  case (Cons k ks)
  have d: "AList.delete k st = filter (\<lambda>(k', m). k' \<noteq> k) st"
    by (auto simp: AList.delete_eq intro: filter_cong)
  have sub: "set ks \<subseteq> fst ` set (AList.delete k st)"
  proof
    fix x assume x: "x \<in> set ks"
    with Cons.prems have "x \<noteq> k" "x \<in> fst ` set st" by auto
    then show "x \<in> fst ` set (AList.delete k st)" unfolding d by force
  qed
  from Cons.prems have "k \<in> fst ` set st" by simp
  then have "remove_entries st c (k # ks) = remove_entries (AList.delete k st) (c + 1) ks" by simp
  also have "\<dots> = (filter (\<lambda>(k', m). k' \<notin> set ks) (AList.delete k st), c + 1 + length ks)"
    using Cons.IH[OF _ sub] Cons.prems(1) by simp
  also have "filter (\<lambda>(k', m). k' \<notin> set ks) (AList.delete k st) =
      filter (\<lambda>(k', m). k' \<notin> set (k # ks)) st"
    unfolding d by (auto intro: filter_cong)
  finally show ?case by simp
qed

lemma add_documents_unfold:
  "add_documents encode s documents =
     (if documents = [] \<or> concat (map doc_chunks documents) = [] then Inr (s, 0)
      else (case embed_texts encode (map content (concat (map doc_chunks documents))) of
              Inl e \<Rightarrow> Inl e
            | Inr emb \<Rightarrow>
                Inr (s\<lparr>index := Some (index_rows s @ emb),
                       document_store := store_entries (document_store s) (length (index_rows s))
                                           (concat (map doc_chunks documents))\<rparr>,
                     length (concat (map doc_chunks documents)))))"
  by (simp add: add_documents_def Let_def index_rows_def split: sum.splits)

lemma add_documents_cases:
  assumes "add_documents encode s documents = Inr (s', n)"
  shows "n = length (concat (map doc_chunks documents)) \<and>
     (concat (map doc_chunks documents) = [] \<longrightarrow> s' = s) \<and>
     (concat (map doc_chunks documents) \<noteq> [] \<longrightarrow>
        (\<exists>emb. embed_texts encode (map content (concat (map doc_chunks documents))) = Inr emb \<and>
           s' = s\<lparr>index := Some (index_rows s @ emb),
                  document_store := store_entries (document_store s) (length (index_rows s))
                                      (concat (map doc_chunks documents))\<rparr>))"
proof -
  define dm where "dm = concat (map doc_chunks documents)"
  have unf: "add_documents encode s documents =
     (if documents = [] \<or> dm = [] then Inr (s, 0)
      else (case embed_texts encode (map content dm) of
              Inl e \<Rightarrow> Inl e
            | Inr emb \<Rightarrow>
                Inr (s\<lparr>index := Some (index_rows s @ emb),
                       document_store := store_entries (document_store s) (length (index_rows s)) dm\<rparr>,
                     length dm)))"
    unfolding dm_def by (rule add_documents_unfold)
  have e: "documents = [] \<Longrightarrow> dm = []" by (simp add: dm_def)
  show ?thesis
  proof (cases "dm = []")
    case True
    with assms unf show ?thesis unfolding dm_def[symmetric] by simp
  next
    case False
    with e have ne: "\<not> (documents = [] \<or> dm = [])" by blast
    from assms unf ne show ?thesis unfolding dm_def[symmetric]
      by (cases "embed_texts encode (map content dm)") simp_all
  qed
qed

lemma add_documents_inv:
  assumes "add_documents encode s documents = Inr (s', n)" "store_wf s" "aligned encode s"
  shows "store_wf s' \<and> aligned encode s'"
proof (cases "concat (map doc_chunks documents) = []")
  case True
  with add_documents_cases[OF assms(1)] assms(2,3) show ?thesis by simp
next
  case False
  define dm where "dm = concat (map doc_chunks documents)"
  from add_documents_cases[OF assms(1)] False obtain emb where
    emb: "embed_texts encode (map content dm) = Inr emb"
    and s': "s' = s\<lparr>index := Some (index_rows s @ emb),
                  document_store := store_entries (document_store s) (length (index_rows s)) dm\<rparr>"
    unfolding dm_def by blast
  from embed_texts_ok[OF emb] have len: "length emb = length dm"
    and enc: "\<forall>i<length dm. encode (content (dm ! i)) = Inr (emb ! i)" by auto
  have d: "distinct (map fst (document_store s'))"
    using assms(2) by (simp add: s' store_wf_def distinct_store_entries)
  have rows: "index_rows s' = index_rows s @ emb" by (simp add: s' index_rows_def)
  have "aligned encode s'"
    unfolding aligned_def
  proof (intro ballI, clarify)
    fix p m assume pm: "(p, m) \<in> set (document_store s')"
    with d have "map_of (document_store s') p = Some m" by simp
    then have mo: "(if length (index_rows s) \<le> p \<and> p < length (index_rows s) + length dm
                then Some (dm ! (p - length (index_rows s))) else map_of (document_store s) p) = Some m"
      by (simp add: s' map_of_store_entries)
    show "p < length (index_rows s') \<and> encode (content m) = Inr (index_rows s' ! p)"
    proof (cases "length (index_rows s) \<le> p \<and> p < length (index_rows s) + length dm")
      case True
      with mo have m: "m = dm ! (p - length (index_rows s))" by simp
      from True have i: "p - length (index_rows s) < length dm" by linarith
      from True have "index_rows s' ! p = emb ! (p - length (index_rows s))"
        by (simp add: rows nth_append)
      with enc i m True len show ?thesis by (simp add: rows)
    next
      case False
      with mo have "map_of (document_store s) p = Some m" by simp
      then have "(p, m) \<in> set (document_store s)" by (rule map_of_SomeD)
      with assms(3) have "p < length (index_rows s)" "encode (content m) = Inr (index_rows s ! p)"
        unfolding aligned_def by auto
      then show ?thesis by (simp add: rows nth_append)
    qed
  qed
  moreover have "store_wf s'" using d by (simp add: store_wf_def s')
  ultimately show ?thesis by simp
qed

lemma delete_documents_cases:
  "delete_documents s ids = (s', n) \<Longrightarrow>
     index s' = index s \<and> embedding_dimension s' = embedding_dimension s \<and>
     (\<exists>c ks. remove_entries (document_store s) c ks = (document_store s', n) \<or>
        (document_store s' = document_store s \<and> n = 0))"
  by (auto simp: delete_documents_def Let_def split: if_splits prod.splits)

lemma set_remove_entries:
  "remove_entries st c ks = (st', c') \<Longrightarrow> set st' \<subseteq> set st \<and> (distinct (map fst st) \<longrightarrow> distinct (map fst st'))"
proof (induction ks arbitrary: st c)
  case Nil
  then show ?case by simp
next
  case (Cons k ks)
  show ?case
  proof (cases "k \<in> fst ` set st")
    case True
    with Cons.prems have "remove_entries (AList.delete k st) (c + 1) ks = (st', c')" by simp
    from Cons.IH[OF this] have "set st' \<subseteq> set (AList.delete k st)"
      "distinct (map fst (AList.delete k st)) \<longrightarrow> distinct (map fst st')" by auto
    moreover have "set (AList.delete k st) \<subseteq> set st" by (auto simp: AList.delete_eq)
    ultimately show ?thesis by (auto simp: distinct_delete)
  next
    case False
    with Cons.prems have "remove_entries st c ks = (st', c')" by simp
    from Cons.IH[OF this] show ?thesis .
  qed
qed

lemma delete_documents_inv:
  assumes "delete_documents s ids = (s', n)" "store_wf s" "aligned encode s"
  shows "store_wf s' \<and> aligned encode s'"
proof -
  from delete_documents_cases[OF assms(1)] have ix: "index s' = index s"
    and st: "\<exists>c ks. remove_entries (document_store s) c ks = (document_store s', n) \<or>
        (document_store s' = document_store s \<and> n = 0)" by auto
  from st set_remove_entries have sub: "set (document_store s') \<subseteq> set (document_store s)"
    and di: "distinct (map fst (document_store s)) \<longrightarrow> distinct (map fst (document_store s'))"
    by (metis order_refl)+
  have rows: "index_rows s' = index_rows s" by (simp add: index_rows_def ix)
  have "aligned encode s'" using assms(3) sub unfolding aligned_def rows by blast
  moreover have "store_wf s'"
    using assms(2) di sub ix unfolding store_wf_def by auto
  ultimately show ?thesis by simp
qed

lemma apply_op_inv:
  assumes "store_wf s" "aligned encode s"
  shows "store_wf (apply_op encode s op) \<and> aligned encode (apply_op encode s op)"
proof (cases op)
  case (Add documents)
  show ?thesis
  proof (cases "add_documents encode s documents")
    case (Inl e)
    with Add assms show ?thesis by simp
  next
    case (Inr r)
    obtain s' n where r: "r = (s', n)" by (cases r)
    from add_documents_inv[OF Inr[unfolded r] assms] Add Inr r show ?thesis by simp
  qed
next
  case (Delete ids)
  obtain s' n where d: "delete_documents s ids = (s', n)" by (cases "delete_documents s ids")
  from delete_documents_inv[OF d assms] Delete d show ?thesis by simp
qed

lemma run_ops_inv:
  assumes "store_wf s" "aligned encode s"
  shows "store_wf (run_ops encode s ops) \<and> aligned encode (run_ops encode s ops)"
  using assms unfolding run_ops_def
proof (induction ops arbitrary: s)
  case Nil
  then show ?case by simp
next
  case (Cons op ops)
  from apply_op_inv[OF Cons.prems] Cons.IH show ?case by simp
qed

lemma empty_state_inv: "store_wf (empty_state d) \<and> aligned encode (empty_state d)"
  by (simp add: store_wf_def aligned_def empty_state_def)

lemma chunk_text_short: "int (length t) \<le> 512 \<Longrightarrow> chunk_text t 512 50 = Some [t]"
  by (simp add: chunk_text_def)

lemma doc_chunks_sample:
  "txt \<noteq> [] \<Longrightarrow> did \<noteq> [] \<Longrightarrow> length txt \<le> 512 \<Longrightarrow>
   doc_chunks (sample_doc did txt) =
     [\<lparr>document_id = did, chunk_id = did, content = txt, title = ''Contract'', metadata = [],
       document_type = Some ''contract'', timestamp = PNone, chunk_index = 0\<rparr>]"
  by (simp add: doc_chunks_def sample_doc_def chunk_text_short)

lemma ex1: "add_documents sample_encode (empty_state 2) [sample_doc ''D1'' ''monthly reports''] =
   Inr (\<lparr>index = Some [[3, 4]],
         document_store = [(0, \<lparr>document_id = ''D1'', chunk_id = ''D1'', content = ''monthly reports'',
            title = ''Contract'', metadata = [],
            document_type = Some ''contract'', timestamp = PNone, chunk_index = 0\<rparr>)],
         embedding_dimension = 2\<rparr>, 1)"
  by (simp add: add_documents_unfold doc_chunks_sample sample_encode_def empty_state_def index_rows_def)

lemma sqrt25: "sqrt 25 = 5"
  by (simp add: real_sqrt_unique)

lemma nq: "normalize_L2 [3, 4] = [3 / 5, 4 / 5]"
  by (simp add: normalize_L2_def sqrt25)

lemma add_documents_positions:
  assumes "add_documents encode s documents = Inr (s', n)"
  shows "n = length (concat (map doc_chunks documents)) \<and>
     length (index_rows s') = length (index_rows s) + n \<and>
     (\<forall>i<n. map_of (document_store s') (length (index_rows s) + i) =
               Some (concat (map doc_chunks documents) ! i) \<and>
            encode (content (concat (map doc_chunks documents) ! i)) =
               Inr (index_rows s' ! (length (index_rows s) + i))) \<and>
     (\<forall>p. p < length (index_rows s) \<or> length (index_rows s) + n \<le> p \<longrightarrow>
          map_of (document_store s') p = map_of (document_store s) p) \<and>
     (\<forall>p<length (index_rows s). index_rows s' ! p = index_rows s ! p)"
proof (cases "concat (map doc_chunks documents) = []")
  case True
  with add_documents_cases[OF assms] show ?thesis by simp
next
  case False
  define dm where "dm = concat (map doc_chunks documents)"
  from add_documents_cases[OF assms] False obtain emb where
    n: "n = length dm" and emb: "embed_texts encode (map content dm) = Inr emb"
    and s': "s' = s\<lparr>index := Some (index_rows s @ emb),
                  document_store := store_entries (document_store s) (length (index_rows s)) dm\<rparr>"
    unfolding dm_def by blast
  from embed_texts_ok[OF emb] have len: "length emb = length dm"
    and enc: "\<forall>i<length dm. encode (content (dm ! i)) = Inr (emb ! i)" by auto
  have rows: "index_rows s' = index_rows s @ emb" by (simp add: s' index_rows_def)
  have st: "document_store s' = store_entries (document_store s) (length (index_rows s)) dm"
    by (simp add: s')
  have a: "length (index_rows s') = length (index_rows s) + n" by (simp add: rows len n)
  have b: "\<forall>i<n. map_of (document_store s') (length (index_rows s) + i) = Some (dm ! i) \<and>
            encode (content (dm ! i)) = Inr (index_rows s' ! (length (index_rows s) + i))"
    using enc by (simp add: st map_of_store_entries n rows)
  have c: "\<forall>p. p < length (index_rows s) \<or> length (index_rows s) + n \<le> p \<longrightarrow>
          map_of (document_store s') p = map_of (document_store s) p"
    by (auto simp: st map_of_store_entries n)
  have d: "\<forall>p<length (index_rows s). index_rows s' ! p = index_rows s ! p"
    by (simp add: rows nth_append)
  from n a b c d show ?thesis unfolding dm_def by blast
qed

lemma delete_documents_frame:
  assumes "delete_documents s ids = (s', c)"
  shows "index s' = index s \<and>
     (\<forall>p. map_of (document_store s') p = None \<or> map_of (document_store s') p = map_of (document_store s) p)"
proof -
  from delete_documents_cases[OF assms] have ix: "index s' = index s"
    and st: "\<exists>c0 ks. remove_entries (document_store s) c0 ks = (document_store s', c) \<or>
        (document_store s' = document_store s \<and> c = 0)" by auto
  from st map_of_remove_entries
  have "\<forall>p. map_of (document_store s') p = None \<or> map_of (document_store s') p = map_of (document_store s) p"
    by metis
  with ix show ?thesis by simp
qed

lemma filter_keys_distinct:
  assumes "distinct (map fst st)"
  shows "filter (\<lambda>(k, m). k \<notin> set (map fst (filter P st))) st = filter (\<lambda>x. \<not> P x) st"
proof (rule filter_cong[OF refl])
  fix x assume x: "x \<in> set st"
  obtain k m where km: "x = (k, m)" by (cases x)
  have "(k \<in> set (map fst (filter P st))) = P (k, m)"
  proof
    assume "k \<in> set (map fst (filter P st))"
    then obtain m' where m': "(k, m') \<in> set st" "P (k, m')" by auto
    with assms x km have "m' = m" by (metis eq_key_imp_eq_value)
    with m' show "P (k, m)" by simp
  next
    assume "P (k, m)"
    with x km show "k \<in> set (map fst (filter P st))" by force
  qed
  then show "(case x of (k, m) \<Rightarrow> k \<notin> set (map fst (filter P st))) = (\<not> P x)"
    by (simp add: km)
qed

lemma delete_documents_result:
  assumes "store_wf s"
  shows "delete_documents s ids =
     (s\<lparr>document_store := filter (\<lambda>(p, m). document_id m \<notin> set ids) (document_store s)\<rparr>,
      length (filter (\<lambda>(p, m). document_id m \<in> set ids) (document_store s)))"
proof (cases "index s = None")
  case True
  with assms have "document_store s = []" by (simp add: store_wf_def)
  with True show ?thesis by (simp add: delete_documents_def)
next
  case False
  define P where "P = (\<lambda>(p :: nat, m :: chunk_metadata). document_id m \<in> set ids)"
  define ks where "ks = map fst (filter P (document_store s))"
  have np: "(\<lambda>(p, m). document_id m \<notin> set ids) = (\<lambda>x. \<not> P x)" by (auto simp: P_def)
  have d: "distinct (map fst (document_store s))" using assms by (simp add: store_wf_def)
  have unf: "delete_documents s ids =
     (if ks = [] then (s, 0)
      else (case remove_entries (document_store s) 0 ks of
              (store', deleted_count) \<Rightarrow> (s\<lparr>document_store := store'\<rparr>, deleted_count)))"
  proof -
    from False obtain rows where "index s = Some rows" by auto
    then show ?thesis by (simp add: delete_documents_def Let_def ks_def P_def split: prod.splits)
  qed
  show ?thesis
  proof (cases "ks = []")
    case True
    then have e: "filter P (document_store s) = []" by (simp add: ks_def)
    then have "filter (\<lambda>x. \<not> P x) (document_store s) = document_store s"
      by (simp add: filter_empty_conv filter_id_conv)
    with True e unf show ?thesis unfolding np P_def[symmetric] by simp
  next
    case ne: False
    have dk: "distinct ks" unfolding ks_def using d by (rule distinct_map_filter)
    have sk: "set ks \<subseteq> fst ` set (document_store s)" unfolding ks_def by auto
    have "remove_entries (document_store s) 0 ks =
        (filter (\<lambda>(k, m). k \<notin> set ks) (document_store s), 0 + length ks)"
      using dk sk by (rule remove_entries_filter)
    also have "filter (\<lambda>(k, m). k \<notin> set ks) (document_store s) = filter (\<lambda>x. \<not> P x) (document_store s)"
      unfolding ks_def using d by (rule filter_keys_distinct)
    finally have "remove_entries (document_store s) 0 ks =
        (filter (\<lambda>x. \<not> P x) (document_store s), length (filter P (document_store s)))"
      by (simp add: ks_def)
    with ne unf show ?thesis unfolding np P_def[symmetric] by simp
  qed
qed

section \<open>Indexer: claims C1, C3 and C7\<close>

text \<open>
  Claim C3 (positional alignment). Starting from an empty index, after any sequence of
  \<open>add_documents\<close> and \<open>delete_documents\<close> calls, every key \<open>p\<close> of the Chunk Store is
  below the number of vectors of the index, and row \<open>p\<close> of the index is the embedding of
  the chunk text stored at key \<open>p\<close>. A successful \<open>add_documents\<close> gives its \<open>n\<close> new chunks
  the consecutive keys \<open>old_size, ..., old_size + n - 1\<close> in embedding order, appends their
  embeddings as the rows of the same numbers, and changes no other key or row;
  \<open>delete_documents\<close> leaves the index alone and only removes keys, it never re-assigns
  one.
\<close>

theorem index_store_alignment:
  "(\<forall>(p, m) \<in> set (document_store (run_ops encode (empty_state d) ops)).
       p < total_vectors (get_index_stats (run_ops encode (empty_state d) ops)) \<and>
       encode (content m) = Inr (index_rows (run_ops encode (empty_state d) ops) ! p)) \<and>
   (add_documents encode s documents = Inr (s', n) \<longrightarrow>
       n = length (concat (map doc_chunks documents)) \<and>
       length (index_rows s') = length (index_rows s) + n \<and>
       (\<forall>i<n. map_of (document_store s') (length (index_rows s) + i) =
                 Some (concat (map doc_chunks documents) ! i) \<and>
              encode (content (concat (map doc_chunks documents) ! i)) =
                 Inr (index_rows s' ! (length (index_rows s) + i))) \<and>
       (\<forall>p. p < length (index_rows s) \<or> length (index_rows s) + n \<le> p \<longrightarrow>
            map_of (document_store s') p = map_of (document_store s) p) \<and>
       (\<forall>p<length (index_rows s). index_rows s' ! p = index_rows s ! p)) \<and>
   (delete_documents s ids = (s'', c) \<longrightarrow>
       index s'' = index s \<and>
       (\<forall>p. map_of (document_store s'') p = None \<or>
            map_of (document_store s'') p = map_of (document_store s) p))"
proof -
  from run_ops_inv[of "empty_state d" encode ops] empty_state_inv[of d encode]
  have "aligned encode (run_ops encode (empty_state d) ops)" by blast
  then have a: "\<forall>(p, m) \<in> set (document_store (run_ops encode (empty_state d) ops)).
       p < total_vectors (get_index_stats (run_ops encode (empty_state d) ops)) \<and>
       encode (content m) = Inr (index_rows (run_ops encode (empty_state d) ops) ! p)"
  proof -
    have tv: "total_vectors (get_index_stats t) = length (index_rows t)" for t
      by (cases "index t") (simp_all add: get_index_stats_def index_rows_def)
    assume "aligned encode (run_ops encode (empty_state d) ops)"
    then show ?thesis unfolding aligned_def tv .
  qed
  from a add_documents_positions[of encode s documents s' n] delete_documents_frame[of s ids s'' c]
  show ?thesis by blast
qed

theorem index_store_alignment_witness:
  "run_ops sample_encode (empty_state 2)
     [Add [sample_doc ''D1'' ''monthly reports''], Delete [''D1''], Add [sample_doc ''D2'' ''payment terms'']] =
     \<lparr>index = Some [[3, 4], [3, 4]], document_store = [(1, \<lparr>document_id = ''D2'', chunk_id = ''D2'', content = ''payment terms'',
              title = ''Contract'', metadata = [],
              document_type = Some ''contract'', timestamp = PNone, chunk_index = 0\<rparr>)], embedding_dimension = 2\<rparr> \<and>
   (1::nat) < total_vectors (get_index_stats (run_ops sample_encode (empty_state 2)
     [Add [sample_doc ''D1'' ''monthly reports''], Delete [''D1''], Add [sample_doc ''D2'' ''payment terms'']])) \<and>
   sample_encode ''payment terms'' = Inr (index_rows (run_ops sample_encode (empty_state 2)
     [Add [sample_doc ''D1'' ''monthly reports''], Delete [''D1''], Add [sample_doc ''D2'' ''payment terms'']]) ! 1) \<and>
   add_documents sample_encode
     \<lparr>index = Some [[3, 4]], document_store = [(0, \<lparr>document_id = ''D1'', chunk_id = ''D1'', content = ''monthly reports'',
              title = ''Contract'', metadata = [],
              document_type = Some ''contract'', timestamp = PNone, chunk_index = 0\<rparr>)], embedding_dimension = 2\<rparr>
     [sample_doc ''D2'' ''payment terms''] =
     Inr (\<lparr>index = Some [[3, 4], [3, 4]], document_store = [(0, \<lparr>document_id = ''D1'', chunk_id = ''D1'', content = ''monthly reports'',
              title = ''Contract'', metadata = [],
              document_type = Some ''contract'', timestamp = PNone, chunk_index = 0\<rparr>), (1, \<lparr>document_id = ''D2'', chunk_id = ''D2'', content = ''payment terms'',
              title = ''Contract'', metadata = [],
              document_type = Some ''contract'', timestamp = PNone, chunk_index = 0\<rparr>)], embedding_dimension = 2\<rparr>, 1) \<and>
   map_of (document_store \<lparr>index = Some [[3, 4], [3, 4]], document_store = [(0, \<lparr>document_id = ''D1'', chunk_id = ''D1'', content = ''monthly reports'',
              title = ''Contract'', metadata = [],
              document_type = Some ''contract'', timestamp = PNone, chunk_index = 0\<rparr>), (1, \<lparr>document_id = ''D2'', chunk_id = ''D2'', content = ''payment terms'',
              title = ''Contract'', metadata = [],
              document_type = Some ''contract'', timestamp = PNone, chunk_index = 0\<rparr>)], embedding_dimension = 2\<rparr>) 1 =
     Some (concat (map doc_chunks [sample_doc ''D2'' ''payment terms'']) ! 0) \<and>
   delete_documents
     \<lparr>index = Some [[3, 4]], document_store = [(0, \<lparr>document_id = ''D1'', chunk_id = ''D1'', content = ''monthly reports'',
              title = ''Contract'', metadata = [],
              document_type = Some ''contract'', timestamp = PNone, chunk_index = 0\<rparr>)], embedding_dimension = 2\<rparr> [''D1''] =
     (\<lparr>index = Some [[3, 4 :: real]], document_store = [], embedding_dimension = 2\<rparr>, 1) \<and>
   index \<lparr>index = Some [[3, 4 :: real]], document_store = [], embedding_dimension = 2\<rparr> = Some [[3, 4]]"
proof -
  let ?ops = "[Add [sample_doc ''D1'' ''monthly reports''], Delete [''D1''], Add [sample_doc ''D2'' ''payment terms'']]"
  let ?s1 = "\<lparr>index = Some [[3, 4]], document_store = [(0, \<lparr>document_id = ''D1'', chunk_id = ''D1'', content = ''monthly reports'',
              title = ''Contract'', metadata = [],
              document_type = Some ''contract'', timestamp = PNone, chunk_index = 0\<rparr>)], embedding_dimension = 2\<rparr>"
  let ?s12 = "\<lparr>index = Some [[3, 4], [3, 4]], document_store = [(0, \<lparr>document_id = ''D1'', chunk_id = ''D1'', content = ''monthly reports'',
              title = ''Contract'', metadata = [],
              document_type = Some ''contract'', timestamp = PNone, chunk_index = 0\<rparr>), (1, \<lparr>document_id = ''D2'', chunk_id = ''D2'', content = ''payment terms'',
              title = ''Contract'', metadata = [],
              document_type = Some ''contract'', timestamp = PNone, chunk_index = 0\<rparr>)], embedding_dimension = 2\<rparr>"
  let ?s2 = "\<lparr>index = Some [[3, 4 :: real]], document_store = [], embedding_dimension = 2\<rparr>"
  have r: "run_ops sample_encode (empty_state 2) ?ops =
     \<lparr>index = Some [[3, 4], [3, 4]], document_store = [(1, \<lparr>document_id = ''D2'', chunk_id = ''D2'', content = ''payment terms'',
              title = ''Contract'', metadata = [],
              document_type = Some ''contract'', timestamp = PNone, chunk_index = 0\<rparr>)], embedding_dimension = 2\<rparr>"
    by (simp add: run_ops_def add_documents_unfold doc_chunks_sample sample_encode_def
          empty_state_def index_rows_def delete_documents_def)
  have a: "add_documents sample_encode ?s1 [sample_doc ''D2'' ''payment terms''] = Inr (?s12, 1)"
    by (simp add: add_documents_unfold doc_chunks_sample sample_encode_def index_rows_def)
  have dl: "delete_documents ?s1 [''D1''] = (?s2, 1)"
    by (simp add: delete_documents_def)
  note T = index_store_alignment[of sample_encode 2 ?ops ?s1
      "[sample_doc ''D2'' ''payment terms'']" ?s12 1 "[''D1'']" ?s2 1]
  from T have c1: "\<forall>(p, m) \<in> set (document_store (run_ops sample_encode (empty_state 2) ?ops)).
       p < total_vectors (get_index_stats (run_ops sample_encode (empty_state 2) ?ops)) \<and>
       sample_encode (content m) = Inr (index_rows (run_ops sample_encode (empty_state 2) ?ops) ! p)"
    by blast
  have mem: "(1, \<lparr>document_id = ''D2'', chunk_id = ''D2'', content = ''payment terms'',
              title = ''Contract'', metadata = [],
              document_type = Some ''contract'', timestamp = PNone, chunk_index = 0\<rparr>) \<in> set (document_store (run_ops sample_encode (empty_state 2) ?ops))"
    unfolding r by simp
  from c1 mem have w1: "(1::nat) < total_vectors (get_index_stats (run_ops sample_encode (empty_state 2) ?ops)) \<and>
     sample_encode ''payment terms'' = Inr (index_rows (run_ops sample_encode (empty_state 2) ?ops) ! 1)"
    by fastforce
  from T a have c2: "\<forall>i<1. map_of (document_store ?s12) (length (index_rows ?s1) + i) =
                 Some (concat (map doc_chunks [sample_doc ''D2'' ''payment terms'']) ! i)"
    by blast
  then have w2: "map_of (document_store ?s12) 1 =
     Some (concat (map doc_chunks [sample_doc ''D2'' ''payment terms'']) ! 0)"
    by (simp add: index_rows_def)
  from T dl have w3: "index ?s2 = index ?s1" by blast
  from r w1 a w2 dl w3 show ?thesis by simp
qed

text \<open>
  Claim C7 (deletion leaves tombstones). In every state of the indexer (a Chunk Store
  with each key once, empty as long as no index exists) and for every id list,
  \<open>delete_documents\<close> removes exactly the Chunk Store entries whose \<open>document_id\<close> is in the
  list and returns their number; the index is untouched, so \<open>total_vectors\<close> of
  \<open>get_index_stats\<close> is unchanged, while no deleted id is among the live document ids that
  \<open>active_documents\<close> counts.
\<close>

theorem delete_documents_tombstones:
  assumes "store_wf s"
  shows "document_store (fst (delete_documents s ids)) =
           filter (\<lambda>(p, m). document_id m \<notin> set ids) (document_store s) \<and>
         snd (delete_documents s ids) =
           length (filter (\<lambda>(p, m). document_id m \<in> set ids) (document_store s)) \<and>
         index (fst (delete_documents s ids)) = index s \<and>
         total_vectors (get_index_stats (fst (delete_documents s ids))) =
           total_vectors (get_index_stats s) \<and>
         active_documents (get_index_stats (fst (delete_documents s ids))) =
           card (live_document_ids (fst (delete_documents s ids))) \<and>
         live_document_ids (fst (delete_documents s ids)) = live_document_ids s - set ids"
proof -
  define s' where "s' = s\<lparr>document_store := filter (\<lambda>(p, m). document_id m \<notin> set ids) (document_store s)\<rparr>"
  have r: "delete_documents s ids =
      (s', length (filter (\<lambda>(p, m). document_id m \<in> set ids) (document_store s)))"
    unfolding s'_def by (rule delete_documents_result[OF assms])
  have c1: "document_store s' = filter (\<lambda>(p, m). document_id m \<notin> set ids) (document_store s)"
    by (simp add: s'_def)
  have c3: "index s' = index s" by (simp add: s'_def)
  have c4: "total_vectors (get_index_stats s') = total_vectors (get_index_stats s)"
    by (simp add: get_index_stats_def c3)
  have c5: "active_documents (get_index_stats s') = card (live_document_ids s')"
    by (simp add: get_index_stats_def live_document_ids_def length_remdups_card_conv)
  have c6: "live_document_ids s' = live_document_ids s - set ids"
    unfolding live_document_ids_def c1 by auto
  from c1 c3 c4 c5 c6 show ?thesis unfolding r by simp
qed

theorem delete_documents_tombstones_witness:
  "delete_documents
     (run_ops sample_encode (empty_state 2)
        [Add [sample_doc ''D1'' ''monthly reports'', sample_doc ''D2'' ''payment terms'']]) [''D1''] =
     (\<lparr>index = Some [[3, 4], [3, 4]],
       document_store = [(1, \<lparr>document_id = ''D2'', chunk_id = ''D2'', content = ''payment terms'',
            title = ''Contract'', metadata = [],
            document_type = Some ''contract'', timestamp = PNone, chunk_index = 0\<rparr>)],
       embedding_dimension = 2\<rparr>, 1) \<and>
   total_vectors (get_index_stats (fst (delete_documents
     (run_ops sample_encode (empty_state 2)
        [Add [sample_doc ''D1'' ''monthly reports'', sample_doc ''D2'' ''payment terms'']]) [''D1'']))) = 2 \<and>
   live_document_ids (fst (delete_documents
     (run_ops sample_encode (empty_state 2)
        [Add [sample_doc ''D1'' ''monthly reports'', sample_doc ''D2'' ''payment terms'']]) [''D1''])) = {''D2''}"
proof -
  let ?s = "run_ops sample_encode (empty_state 2)
        [Add [sample_doc ''D1'' ''monthly reports'', sample_doc ''D2'' ''payment terms'']]"
  have r: "?s = \<lparr>index = Some [[3, 4], [3, 4]],
       document_store = [(0, \<lparr>document_id = ''D1'', chunk_id = ''D1'', content = ''monthly reports'',
            title = ''Contract'', metadata = [],
            document_type = Some ''contract'', timestamp = PNone, chunk_index = 0\<rparr>),
          (1, \<lparr>document_id = ''D2'', chunk_id = ''D2'', content = ''payment terms'',
            title = ''Contract'', metadata = [],
            document_type = Some ''contract'', timestamp = PNone, chunk_index = 0\<rparr>)],
       embedding_dimension = 2\<rparr>"
    by (simp add: run_ops_def add_documents_unfold doc_chunks_sample sample_encode_def
          empty_state_def index_rows_def)
  have wf: "store_wf ?s" unfolding r by (simp add: store_wf_def)
  have d: "delete_documents ?s [''D1''] =
     (\<lparr>index = Some [[3, 4], [3, 4]],
       document_store = [(1, \<lparr>document_id = ''D2'', chunk_id = ''D2'', content = ''payment terms'',
            title = ''Contract'', metadata = [],
            document_type = Some ''contract'', timestamp = PNone, chunk_index = 0\<rparr>)],
       embedding_dimension = 2\<rparr>, 1)"
    unfolding r by (simp add: delete_documents_def)
  from delete_documents_tombstones[OF wf, of "[''D1'']"] d
  show ?thesis by (simp add: get_index_stats_def live_document_ids_def)
qed

text \<open>
  Claim C1 (one normalization policy for stored and query vectors). The code breaks it:
  \<open>add_documents\<close> appends the embeddings as the model returns them, while \<open>search\<close>
  applies \<open>normalize_L2\<close> to the query embedding before the inner product. With a model
  whose vector for a text is \<open>[3, 4]\<close> (norm 5), the stored row of a chunk is \<open>[3, 4]\<close>, not a
  fixed point of \<open>normalize_L2\<close>, the query vector for the same text is \<open>[3/5, 4/5]\<close>, and the
  search for the chunk's own text scores it 5, the norm of the stored row, where cosine
  similarity is 1.
\<close>

theorem normalization_asymmetry:
  "add_documents sample_encode (empty_state 2) [sample_doc ''D1'' ''monthly reports''] =
     Inr (\<lparr>index = Some [[3, 4]],
           document_store = [(0, \<lparr>document_id = ''D1'', chunk_id = ''D1'', content = ''monthly reports'',
              title = ''Contract'', metadata = [],
              document_type = Some ''contract'', timestamp = PNone, chunk_index = 0\<rparr>)],
           embedding_dimension = 2\<rparr>, 1) \<and>
   normalize_L2 [3, 4] = [3 / 5, 4 / 5] \<and>
   normalize_L2 [3, 4] \<noteq> [3, 4] \<and>
   map score
     (projr (search sample_encode index_flat_ip_search
        (fst (projr (add_documents sample_encode (empty_state 2) [sample_doc ''D1'' ''monthly reports''])))
        ''monthly reports'' 10 None)) = [5]"
proof -
  have a: "add_documents sample_encode (empty_state 2) [sample_doc ''D1'' ''monthly reports''] =
     Inr (\<lparr>index = Some [[3, 4]],
           document_store = [(0, \<lparr>document_id = ''D1'', chunk_id = ''D1'', content = ''monthly reports'',
              title = ''Contract'', metadata = [],
              document_type = Some ''contract'', timestamp = PNone, chunk_index = 0\<rparr>)],
           embedding_dimension = 2\<rparr>, 1)"
    by (simp add: add_documents_unfold doc_chunks_sample sample_encode_def empty_state_def index_rows_def)
  have n: "normalize_L2 [3, 4] = [3 / 5, 4 / 5]" by (simp add: normalize_L2_def sqrt25)
  show ?thesis unfolding a n
    by (simp add: search_def sample_encode_def n index_flat_ip_search_def
          inner_product_def filtered_out_def to_result_def)
qed

section \<open>Query engine: lemmas\<close>

lemma build_sources_ok:
  "\<forall>r \<in> set rs. 0 \<le> score r \<and> score r \<le> 1 \<Longrightarrow>
   \<exists>srcs. build_sources rs = Inr srcs \<and> map relevance_score srcs = map score rs \<and>
      map src_document_id srcs = map document_id rs"
proof (induction rs)
  case Nil
  then show ?case by simp
next
  case (Cons r rs)
  then obtain srcs where s: "build_sources rs = Inr srcs" "map relevance_score srcs = map score rs"
    "map src_document_id srcs = map document_id rs" by auto
  from Cons.prems have "0 \<le> score r \<and> score r \<le> 1" by simp
  then obtain src where src: "source_of r = Inr src" "relevance_score src = score r"
    "src_document_id src = document_id r"
    by (simp add: source_of_def)
  with s show ?case by simp
qed

lemma generate_ai_answer_failure:
  assumes "\<forall>prompt. \<exists>e. llm system_prompt prompt = Inl e"
  shows "generate_ai_answer llm q context_texts = (''Unable to generate AI answer'', 0.2)"
proof -
  from assms obtain e where
    "llm system_prompt (answer_prompt q (join [CHR 0x0A, CHR 0x0A] (py_take context_texts 5))) = Inl e"
    by blast
  then show ?thesis by (simp add: generate_ai_answer_def)
qed

lemma generate_answer_llm_failure:
  assumes "rs \<noteq> []" "\<forall>r \<in> set rs. 0 \<le> score r \<and> score r \<le> 1" "include_context request"
    "\<forall>prompt. \<exists>e. llm system_prompt prompt = Inl e"
  shows "answer_type (generate_answer True llm request rs) = ''synthesized'' \<and>
         confidence (generate_answer True llm request rs) = 0.2 \<and>
         answer (generate_answer True llm request rs) = ''Unable to generate AI answer'' \<and>
         map relevance_score (sources (generate_answer True llm request rs)) = map score rs \<and>
         map src_document_id (sources (generate_answer True llm request rs)) = map document_id rs"
proof -
  from assms(1) obtain r rest where rs: "rs = r # rest" by (cases rs) auto
  from build_sources_ok[OF assms(2)] obtain srcs where s: "build_sources rs = Inr srcs"
    "map relevance_score srcs = map score rs" "map src_document_id srcs = map document_id rs" by blast
  have g: "generate_ai_answer llm (req_query request) (map content rs) = (''Unable to generate AI answer'', 0.2)"
    using assms(4) by (rule generate_ai_answer_failure)
  have "generate_answer True llm request rs =
     \<lparr>answer = ''Unable to generate AI answer'', confidence = 0.2, answer_type = ''synthesized'',
      sources = srcs, related_queries = get_related_queries (req_query request),
      explanation = Some (''Answer generated from '' @ digits (length srcs) @ '' relevant document(s)'')\<rparr>"
    using s(1) g assms(3) unfolding rs by (simp add: generate_answer_def)
  with s show ?thesis by simp
qed

lemma generate_answer_empty:
  "answer_type (generate_answer g llm request []) = ''not_found'' \<and>
   confidence (generate_answer g llm request []) = 0 \<and>
   sources (generate_answer g llm request []) = []"
  by (simp add: generate_answer_def)

lemma search_documents_failure:
  assumes "search_mode request \<noteq> ''keyword''"
    "search encode knn s (req_query request)
       (if search_mode request = ''semantic'' then max_results request else max_results request div 2)
       (convert_filters (req_filters request)) = Inl e"
  shows "search_documents fl encode knn s request = []"
  using assms by (simp add: search_documents_def Let_def split: if_splits)

lemma sample_keyword_search:
  "keyword_search (\<lambda>x. x) sample_state ''reports'' 10 None = [to_result (sample_chunk []) 1]"
  by code_simp

lemma sample_keyword_hit:
  "search_documents (\<lambda>x. x) sample_encode index_flat_ip_search sample_state (sample_request ''keyword'') =
     [to_result (sample_chunk []) 1]"
  by (simp add: search_documents_def sample_request_def convert_filters_def sample_keyword_search
        to_result_def)

lemma query_answer:
  "result_answer (query g llm fl encode knn s request) =
     generate_answer g llm request (search_documents fl encode knn s request)"
  by (simp add: query_def Let_def)

lemma query_count:
  "search_results_count (query g llm fl encode knn s request) =
     length (search_documents fl encode knn s request)"
  by (simp add: query_def Let_def)

section \<open>Query engine: claims C2 and C9\<close>

text \<open>
  Claim C2 as stated: when the LLM call raises and the result list is not empty, the
  Answer has type \<open>error\<close> and confidence 0.0. The code's handler in
  \<open>_generate_ai_answer\<close> returns the pair \<open>("Unable to generate AI answer", 0.2)\<close> instead of
  raising, and \<open>_generate_answer\<close> wraps it as a \<open>synthesized\<close> answer: for the keyword query
  \<open>reports\<close> over one chunk, with an LLM that always fails, the answer is \<open>synthesized\<close> with
  confidence 0.2.
\<close>

theorem synthesis_failure_counterexample:
  "search_documents (\<lambda>x. x) sample_encode index_flat_ip_search sample_state (sample_request ''keyword'') \<noteq> [] \<and>
   failing_llm system_prompt (answer_prompt ''reports'' ''monthly reports'') = Inl LLMError \<and>
   answer_type (result_answer (query True failing_llm (\<lambda>x. x) sample_encode index_flat_ip_search sample_state
      (sample_request ''keyword''))) = ''synthesized'' \<and>
   confidence (result_answer (query True failing_llm (\<lambda>x. x) sample_encode index_flat_ip_search sample_state
      (sample_request ''keyword''))) = 0.2 \<and>
   \<not> (answer_type (result_answer (query True failing_llm (\<lambda>x. x) sample_encode index_flat_ip_search sample_state
      (sample_request ''keyword''))) = ''error'' \<and>
      confidence (result_answer (query True failing_llm (\<lambda>x. x) sample_encode index_flat_ip_search sample_state
      (sample_request ''keyword''))) = 0)"
proof -
  have ne: "[to_result (sample_chunk []) 1] \<noteq> []" by simp
  have sc: "\<forall>r \<in> set [to_result (sample_chunk []) 1]. 0 \<le> score r \<and> score r \<le> 1"
    by (simp add: to_result_def)
  have ic: "include_context (sample_request ''keyword'')" by (simp add: sample_request_def)
  have fails: "\<forall>prompt. \<exists>e. failing_llm system_prompt prompt = Inl e" by (simp add: failing_llm_def)
  from generate_answer_llm_failure[of "[to_result (sample_chunk []) 1]" "sample_request ''keyword''"
      failing_llm, OF ne sc ic fails]
  show ?thesis by (simp add: query_answer sample_keyword_hit failing_llm_def)
qed

text \<open>
  Claim C2 as amended. On answer-synthesis failure (the LLM call raises), for every
  query asking for context whose retrieved result list is non-empty and holds valid
  relevance scores (in \<open>[0, 1]\<close>), the returned Answer has \<open>answer_type\<close> \<open>synthesized\<close>, the
  text \<open>Unable to generate AI answer\<close> and confidence 0.2, and keeps one source per
  result; \<open>query\<close> returns it, no exception propagates. (The \<open>error\<close> answer with confidence
  0.0 is what the handler of \<open>_generate_answer\<close> returns when building the answer itself
  raises.) This holds whatever the rounding \<open>fl\<close> of the scores' float arithmetic.
\<close>

theorem synthesis_failure_fallback:
  assumes "search_documents fl encode knn s request \<noteq> []"
    "\<forall>r \<in> set (search_documents fl encode knn s request). 0 \<le> score r \<and> score r \<le> 1"
    "include_context request"
    "\<forall>prompt. \<exists>e. llm system_prompt prompt = Inl e"
  shows "answer_type (result_answer (query True llm fl encode knn s request)) = ''synthesized'' \<and>
         confidence (result_answer (query True llm fl encode knn s request)) = 0.2 \<and>
         answer (result_answer (query True llm fl encode knn s request)) = ''Unable to generate AI answer'' \<and>
         map relevance_score (sources (result_answer (query True llm fl encode knn s request))) =
           map score (search_documents fl encode knn s request) \<and>
         search_results_count (query True llm fl encode knn s request) =
           length (search_documents fl encode knn s request)"
  using generate_answer_llm_failure[of "search_documents fl encode knn s request" request llm,
      OF assms(1) assms(2) assms(3) assms(4)]
  by (simp add: query_answer query_count)

theorem synthesis_failure_fallback_witness:
  "search_documents (\<lambda>x. x) sample_encode index_flat_ip_search sample_state (sample_request ''keyword'') =
     [to_result (sample_chunk []) 1] \<and>
   include_context (sample_request ''keyword'') \<and>
   answer_type (result_answer (query True failing_llm (\<lambda>x. x) sample_encode index_flat_ip_search sample_state
      (sample_request ''keyword''))) = ''synthesized'' \<and>
   confidence (result_answer (query True failing_llm (\<lambda>x. x) sample_encode index_flat_ip_search sample_state
      (sample_request ''keyword''))) = 0.2 \<and>
   answer (result_answer (query True failing_llm (\<lambda>x. x) sample_encode index_flat_ip_search sample_state
      (sample_request ''keyword''))) = ''Unable to generate AI answer'' \<and>
   map relevance_score (sources (result_answer (query True failing_llm (\<lambda>x. x) sample_encode
      index_flat_ip_search sample_state (sample_request ''keyword'')))) = [1] \<and>
   search_results_count (query True failing_llm (\<lambda>x. x) sample_encode index_flat_ip_search sample_state
      (sample_request ''keyword'')) = 1"
proof -
  let ?rs = "search_documents (\<lambda>x. x) sample_encode index_flat_ip_search sample_state (sample_request ''keyword'')"
  have ne: "?rs \<noteq> []" by (simp add: sample_keyword_hit)
  have sc: "\<forall>r \<in> set ?rs. 0 \<le> score r \<and> score r \<le> 1"
    by (simp add: sample_keyword_hit to_result_def)
  have ic: "include_context (sample_request ''keyword'')" by (simp add: sample_request_def)
  have fails: "\<forall>prompt. \<exists>e. failing_llm system_prompt prompt = Inl e" by (simp add: failing_llm_def)
  from synthesis_failure_fallback[of "\<lambda>x. x" sample_encode index_flat_ip_search sample_state
      "sample_request ''keyword''" failing_llm, OF ne sc ic fails] ic
  show ?thesis by (simp add: sample_keyword_hit to_result_def)
qed

text \<open>
  Claim C9. \<open>query\<close> never propagates a retrieval failure: when the index search of a
  semantic or hybrid query raises (an embedding fault or a fault of the index),
  \<open>_search_documents\<close> returns the empty list and \<open>query\<close> returns a \<open>not_found\<close> Answer with
  confidence 0.0 and no sources, whatever the answer generator and the rounding \<open>fl\<close> of
  the scores' float arithmetic are.
\<close>

theorem retrieval_failure_not_found:
  assumes "search_mode request \<noteq> ''keyword''"
    "search encode knn s (req_query request)
       (if search_mode request = ''semantic'' then max_results request else max_results request div 2)
       (convert_filters (req_filters request)) = Inl e"
  shows "search_documents fl encode knn s request = [] \<and>
         answer_type (result_answer (query g llm fl encode knn s request)) = ''not_found'' \<and>
         confidence (result_answer (query g llm fl encode knn s request)) = 0 \<and>
         sources (result_answer (query g llm fl encode knn s request)) = [] \<and>
         search_results_count (query g llm fl encode knn s request) = 0"
  using search_documents_failure[OF assms] generate_answer_empty[of g llm request]
  by (simp add: query_answer query_count)

theorem retrieval_failure_not_found_witness:
  "search_mode (sample_request ''semantic'') \<noteq> ''keyword'' \<and>
   search failing_encode index_flat_ip_search sample_state ''reports'' 10 None = Inl EmbeddingError \<and>
   search failing_encode index_flat_ip_search sample_state ''reports'' 5 None = Inl EmbeddingError \<and>
   search_documents (\<lambda>x. x) failing_encode index_flat_ip_search sample_state (sample_request ''semantic'') = [] \<and>
   answer_type (result_answer (query True failing_llm (\<lambda>x. x) failing_encode index_flat_ip_search sample_state
      (sample_request ''semantic''))) = ''not_found'' \<and>
   confidence (result_answer (query True failing_llm (\<lambda>x. x) failing_encode index_flat_ip_search sample_state
      (sample_request ''semantic''))) = 0 \<and>
   sources (result_answer (query True failing_llm (\<lambda>x. x) failing_encode index_flat_ip_search sample_state
      (sample_request ''semantic''))) = [] \<and>
   answer_type (result_answer (query True failing_llm (\<lambda>x. x) failing_encode index_flat_ip_search sample_state
      (sample_request ''hybrid''))) = ''not_found''"
proof -
  have m: "search_mode (sample_request ''semantic'') \<noteq> ''keyword''" by (simp add: sample_request_def)
  have m2: "search_mode (sample_request ''hybrid'') \<noteq> ''keyword''" by (simp add: sample_request_def)
  have f: "search failing_encode index_flat_ip_search sample_state ''reports'' k None = Inl EmbeddingError" for k
    by (simp add: search_def sample_state_def failing_encode_def)
  have h: "search failing_encode index_flat_ip_search sample_state (req_query (sample_request ''semantic''))
       (if search_mode (sample_request ''semantic'') = ''semantic'' then max_results (sample_request ''semantic'')
        else max_results (sample_request ''semantic'') div 2)
       (convert_filters (req_filters (sample_request ''semantic''))) = Inl EmbeddingError"
    by (simp add: sample_request_def convert_filters_def f)
  have h2: "search failing_encode index_flat_ip_search sample_state (req_query (sample_request ''hybrid''))
       (if search_mode (sample_request ''hybrid'') = ''semantic'' then max_results (sample_request ''hybrid'')
        else max_results (sample_request ''hybrid'') div 2)
       (convert_filters (req_filters (sample_request ''hybrid''))) = Inl EmbeddingError"
    by (simp add: sample_request_def convert_filters_def f)
  from retrieval_failure_not_found[OF m h, where g = True and llm = failing_llm and fl = "\<lambda>x. x"]
    retrieval_failure_not_found[OF m2 h2, where g = True and llm = failing_llm and fl = "\<lambda>x. x"]
    m f[of 10] f[of 5]
  show ?thesis by simp
qed

end
